theory Spec2Isabelle
  imports Main "HOL-Library.Word" "HOL-Library.Monad_Syntax"
begin

unbundle bit_operations_syntax

section \<open>JavaScript strings and numbers\<close>

text \<open>
  A JavaScript string is a sequence of code units; the model uses \<^typ>\<open>string\<close>, that is
  code units below 256. A JavaScript number that holds a length or an index is an
  integer or \<open>NaN\<close>: \<^typ>\<open>int option\<close> with \<open>None\<close> for \<open>NaN\<close>. Rounding of
  numbers beyond \<open>2^53\<close> is not modelled. The objects used as
  \<open>Record<string, string>\<close> are maps from names to strings, which is what they are for
  every name but the names of the properties that each JavaScript object inherits (such
  as \<open>constructor\<close>): under such a name the code reads a function, not a string, and
  throws a \<open>TypeError\<close> where it escapes it. These names are listed in
  \<open>prototypeNames\<close> below; a statement that says what an operation returns on every
  storage or for every version name carries the hypothesis that none of the names
  involved is one of them.
  The class is modelled as constructed without a compression provider.
\<close>

type_synonym num = "int option"

abbreviation BSL :: char where "BSL \<equiv> CHR 0x5C"
abbreviation LF :: char where "LF \<equiv> CHR 0x0A"
abbreviation CR :: char where "CR \<equiv> CHR 0x0D"
abbreviation TAB :: char where "TAB \<equiv> CHR 0x09"

text \<open>\<open>s.substring(a, b)\<close>: both arguments are clamped to \<open>[0, s.length]\<close> and swapped
  when the first is larger; \<open>s.substring(a)\<close> runs to the end.\<close>

definition clampIndex :: "string \<Rightarrow> int \<Rightarrow> nat" where
  "clampIndex s a = nat (min (max a 0) (int (length s)))"

definition substring :: "string \<Rightarrow> int \<Rightarrow> int \<Rightarrow> string" where
  "substring s a b =
     (let a' = clampIndex s a; b' = clampIndex s b
      in take (max a' b' - min a' b') (drop (min a' b') s))"

definition substringFrom :: "string \<Rightarrow> int \<Rightarrow> string" where
  "substringFrom s a = drop (clampIndex s a) s"

text \<open>The same with arguments that may be \<open>NaN\<close>, which \<open>substring\<close> reads as 0.\<close>

definition nanToZero :: "num \<Rightarrow> int" where
  "nanToZero x = (case x of None \<Rightarrow> 0 | Some k \<Rightarrow> k)"

definition addNum :: "num \<Rightarrow> num \<Rightarrow> num" where
  "addNum x y = (case x of None \<Rightarrow> None | Some a \<Rightarrow> (case y of None \<Rightarrow> None | Some b \<Rightarrow> Some (a + b)))"

definition lessNum :: "num \<Rightarrow> int \<Rightarrow> bool" where
  "lessNum x n = (case x of None \<Rightarrow> False | Some a \<Rightarrow> a < n)"

text \<open>\<open>s[i]\<close>: \<open>undefined\<close> outside the string.\<close>

definition charAt :: "string \<Rightarrow> int \<Rightarrow> char option" where
  "charAt s i = (if 0 \<le> i \<and> i < int (length s) then Some (s ! nat i) else None)"

fun indexOfAux :: "'a list \<Rightarrow> 'a \<Rightarrow> int \<Rightarrow> int" where
  "indexOfAux [] c k = -1"
| "indexOfAux (x # xs) c k = (if x = c then k else indexOfAux xs c (k + 1))"

definition indexOf :: "'a list \<Rightarrow> 'a \<Rightarrow> int" where
  "indexOf s c = indexOfAux s c 0"

definition indexOfFrom :: "'a list \<Rightarrow> 'a \<Rightarrow> nat \<Rightarrow> int" where
  "indexOfFrom s c n = indexOfAux (drop n s) c (int n)"

definition jsIncludes :: "'a list \<Rightarrow> 'a \<Rightarrow> bool" where
  "jsIncludes s c = (c \<in> set s)"

definition startsWith :: "string \<Rightarrow> char \<Rightarrow> bool" where
  "startsWith s c = (case s of [] \<Rightarrow> False | x # _ \<Rightarrow> x = c)"

definition isWhiteSpace :: "char \<Rightarrow> bool" where
  "isWhiteSpace c = (c = CHR 0x09 \<or> c = CHR 0x0A \<or> c = CHR 0x0B \<or> c = CHR 0x0C
                      \<or> c = CHR 0x0D \<or> c = CHR 0x20 \<or> c = CHR 0xA0)"

definition trim :: "string \<Rightarrow> string" where
  "trim s = rev (dropWhile isWhiteSpace (rev (dropWhile isWhiteSpace s)))"

fun splitOn :: "string \<Rightarrow> char \<Rightarrow> string list" where
  "splitOn [] sep = [[]]"
| "splitOn (c # cs) sep =
     (if c = sep then [] # splitOn cs sep
      else (case splitOn cs sep of [] \<Rightarrow> [[c]] | l # ls \<Rightarrow> (c # l) # ls))"

fun joinWith :: "string list \<Rightarrow> char \<Rightarrow> string" where
  "joinWith [] sep = []"
| "joinWith [x] sep = x"
| "joinWith (x # y # ys) sep = x @ sep # joinWith (y # ys) sep"

subsection \<open>Numbers to text and back\<close>

definition digitChar :: "nat \<Rightarrow> char" where
  "digitChar d = ''0123456789abcdefghijklmnopqrstuvwxyz'' ! d"

function natToString :: "nat \<Rightarrow> nat \<Rightarrow> string" where
  "natToString radix n =
     (if n < radix \<or> radix < 2 then [digitChar n]
      else natToString radix (n div radix) @ [digitChar (n mod radix)])"
  by pat_completeness auto
termination
  by (relation "measure (\<lambda>(radix, n). n)") auto

declare natToString.simps [simp del]

text \<open>A number inside a template literal.\<close>

definition numToString :: "num \<Rightarrow> string" where
  "numToString x =
     (case x of None \<Rightarrow> ''NaN''
      | Some k \<Rightarrow> (if k < 0 then CHR ''-'' # natToString 10 (nat (- k)) else natToString 10 (nat k)))"

definition isDigit :: "char \<Rightarrow> bool" where
  "isDigit c = (48 \<le> (of_char c :: nat) \<and> (of_char c :: nat) \<le> 57)"

text \<open>The value of a digit or letter as a digit of a radix up to 36; 36 for any other
  character.\<close>

definition digitValue :: "char \<Rightarrow> nat" where
  "digitValue c =
     (let k = (of_char c :: nat)
      in if 48 \<le> k \<and> k \<le> 57 then k - 48
         else if 97 \<le> k \<and> k \<le> 122 then k - 87
         else if 65 \<le> k \<and> k \<le> 90 then k - 55
         else 36)"

text \<open>\<open>parseInt(s)\<close> with no radix: leading white space, a sign, then base 10, or base 16
  after \<open>0x\<close>; the longest prefix of digits counts and \<open>NaN\<close> is returned when it is empty.\<close>

definition parseInt :: "string \<Rightarrow> num" where
  "parseInt inputString =
     (let S = dropWhile isWhiteSpace inputString;
          sign = (if startsWith S (CHR ''-'') then - 1 else 1 :: int);
          S1 = (if startsWith S (CHR ''+'') \<or> startsWith S (CHR ''-'') then tl S else S);
          hex = (case S1 of a # b # _ \<Rightarrow> a = CHR ''0'' \<and> (b = CHR ''x'' \<or> b = CHR ''X'') | _ \<Rightarrow> False);
          R = (if hex then 16 else 10 :: nat);
          S2 = (if hex then drop 2 S1 else S1);
          Z = takeWhile (\<lambda>c. digitValue c < R) S2
      in if Z = [] then None
         else Some (sign * int (foldl (\<lambda>a c. a * R + digitValue c) 0 Z)))"

section \<open>Escape codec\<close>

text \<open>\<open>str.replace(/c/g, r)\<close> for a one-character pattern, and for a two-character
  pattern \<open>ab\<close>: matches are taken left to right and do not overlap.\<close>

definition replaceChar :: "char \<Rightarrow> string \<Rightarrow> string \<Rightarrow> string" where
  "replaceChar c r s = concat (map (\<lambda>x. if x = c then r else [x]) s)"

fun replacePair :: "char \<Rightarrow> char \<Rightarrow> string \<Rightarrow> string \<Rightarrow> string" where
  "replacePair a b r (x # y # s) =
     (if x = a \<and> y = b then r @ replacePair a b r s else x # replacePair a b r (y # s))"
| "replacePair a b r s = s"

definition escapeString :: "string \<Rightarrow> string" where
  "escapeString str =
     replaceChar TAB [BSL, CHR ''t'']
       (replaceChar CR [BSL, CHR ''r'']
         (replaceChar LF [BSL, CHR ''n'']
           (replaceChar BSL [BSL, BSL] str)))"

definition unescapeString :: "string \<Rightarrow> string" where
  "unescapeString str =
     replacePair BSL BSL [BSL]
       (replacePair BSL (CHR ''n'') [LF]
         (replacePair BSL (CHR ''r'') [CR]
           (replacePair BSL (CHR ''t'') [TAB] str)))"

section \<open>Edit scripts\<close>

text \<open>\<open>DiffOperation\<close>: the objects the code builds have a \<open>length\<close> (retain, delete) or a
  \<open>text\<close> (insert). A decoded length may be \<open>NaN\<close>.\<close>

datatype DiffOperation = Retain num | Delete num | Insert string

definition isRetain :: "DiffOperation \<Rightarrow> bool" where
  "isRetain op = (case op of Retain _ \<Rightarrow> True | _ \<Rightarrow> False)"

text \<open>\<open>encodeDiff\<close>: trailing retains are popped, each operation is written as a token.\<close>

function popRetains :: "DiffOperation list \<Rightarrow> DiffOperation list" where
  "popRetains opsToEncode =
     (if opsToEncode \<noteq> [] \<and> isRetain (last opsToEncode) then popRetains (butlast opsToEncode)
      else opsToEncode)"
  by pat_completeness auto
termination
  by (relation "measure length") auto

declare popRetains.simps [simp del]

definition encodeOp :: "DiffOperation \<Rightarrow> string" where
  "encodeOp op =
     (case op of
        Retain n \<Rightarrow> CHR ''R'' # numToString n
      | Delete n \<Rightarrow> CHR ''D'' # numToString n
      | Insert t \<Rightarrow> CHR ''I'' # numToString (Some (int (length t))) @ CHR '':'' # t)"

definition encodeDiff :: "DiffOperation list \<Rightarrow> string" where
  "encodeDiff operations = concat (map encodeOp (popRetains operations))"

text \<open>
  \<open>decodeDiff\<close>: the cursor \<open>i\<close> walks the string. A tag other than \<open>R\<close>, \<open>D\<close>, \<open>I\<close> (or
  \<open>undefined\<close>, read at a negative index) is stepped over. The two inner loops collect
  the digits, or everything up to the next colon. After an insert whose length is \<open>NaN\<close>
  the cursor is \<open>NaN\<close> and the loop ends; a negative length moves the cursor back, so the
  loop need not end: \<open>None\<close> is a call that never returns.
\<close>

partial_function (option) decodeLoop :: "string \<Rightarrow> int \<Rightarrow> DiffOperation list \<Rightarrow> DiffOperation list option" where
  "decodeLoop encoded i operations =
     (if i < int (length encoded) then
        (let opType = charAt encoded i; i1 = i + 1 in
         if opType = Some (CHR ''R'') \<or> opType = Some (CHR ''D'') then
           (let numStr = takeWhile isDigit (drop (nat i1) encoded);
                i2 = i1 + int (length numStr);
                len = parseInt numStr
            in decodeLoop encoded i2
                 (operations @ [if opType = Some (CHR ''R'') then Retain len else Delete len]))
         else if opType = Some (CHR ''I'') then
           (let lengthStr = takeWhile (\<lambda>c. c \<noteq> CHR '':'') (drop (nat i1) encoded);
                i2 = i1 + int (length lengthStr);
                i3 = i2 + 1
            in case parseInt lengthStr of
                 None \<Rightarrow> Some (operations @ [Insert (substring encoded i3 0)])
               | Some len \<Rightarrow>
                   decodeLoop encoded (i3 + len) (operations @ [Insert (substring encoded i3 (i3 + len))]))
         else decodeLoop encoded i1 operations)
      else Some operations)"

declare decodeLoop.simps [code]

definition decodeDiff :: "string \<Rightarrow> DiffOperation list option" where
  "decodeDiff encoded = decodeLoop encoded 0 []"

text \<open>\<open>applyDiff\<close>: one step of the loop over the operations, on the pair
  \<open>(result, textIndex)\<close>, then the rest of the text when the cursor is inside it.\<close>

fun applyOp :: "string \<Rightarrow> string \<times> num \<Rightarrow> DiffOperation \<Rightarrow> string \<times> num" where
  "applyOp text (result, textIndex) (Retain n) =
     (result @ substring text (nanToZero textIndex) (nanToZero (addNum textIndex n)),
      addNum textIndex n)"
| "applyOp text (result, textIndex) (Delete n) = (result, addNum textIndex n)"
| "applyOp text (result, textIndex) (Insert t) = (result @ t, textIndex)"

definition applyDiff :: "string \<Rightarrow> DiffOperation list \<Rightarrow> string" where
  "applyDiff text operations =
     (case foldl (applyOp text) ([], Some 0) operations of
        (result, textIndex) \<Rightarrow>
          if lessNum textIndex (int (length text))
          then result @ substringFrom text (nanToZero textIndex)
          else result)"

subsection \<open>The diff provider\<close>

text \<open>
  \<open>dmp\<close> stands for the external library: \<open>dmp old new\<close> is the list that
  \<open>diff_main\<close> returns after \<open>diff_cleanupSemantic\<close>, pairs of an operation code
  (0 equal, -1 delete, 1 insert) and a text.
\<close>

type_synonym diffProvider = "string \<Rightarrow> string \<Rightarrow> (int \<times> string) list"

definition optimizeSimpleOperations :: "DiffOperation list \<Rightarrow> DiffOperation list" where
  "optimizeSimpleOperations operations =
     filter (\<lambda>op. case op of
                Retain n \<Rightarrow> (case n of None \<Rightarrow> False | Some k \<Rightarrow> k \<noteq> 0 \<and> k > 0)
              | Delete n \<Rightarrow> (case n of None \<Rightarrow> False | Some k \<Rightarrow> k \<noteq> 0 \<and> k > 0)
              | Insert t \<Rightarrow> t \<noteq> [] \<and> length t > 0) operations"

definition convertOne :: "int \<times> string \<Rightarrow> DiffOperation list" where
  "convertOne d =
     (case d of (operation, data) \<Rightarrow>
        if operation = 0 then (if length data > 0 then [Retain (Some (int (length data)))] else [])
        else if operation = - 1 then (if length data > 0 then [Delete (Some (int (length data)))] else [])
        else if operation = 1 then (if length data > 0 then [Insert data] else [])
        else [])"

definition convertDmpDiffsToOperations :: "(int \<times> string) list \<Rightarrow> DiffOperation list" where
  "convertDmpDiffsToOperations diffs = optimizeSimpleOperations (concat (map convertOne diffs))"

definition calculateDiff :: "diffProvider \<Rightarrow> string \<Rightarrow> string \<Rightarrow> DiffOperation list" where
  "calculateDiff dmp oldText newText =
     (if oldText = newText then
        (if length oldText > 0 then [Retain (Some (int (length oldText)))] else [])
      else if length oldText = 0 then
        (if length newText > 0 then [Insert newText] else [])
      else if length newText = 0 then [Delete (Some (int (length oldText)))]
      else convertDmpDiffsToOperations (dmp oldText newText))"

section \<open>Record codec\<close>

record parsedData =
  versions :: "string list"
  snapshots :: "string \<rightharpoonup> string"
  deltas :: "string \<rightharpoonup> string"

text \<open>
  The names of the properties of \<open>Object.prototype\<close>. A name is plain when it is none
  of them: only under a plain name does an object used as a map hold nothing but what
  the code has stored in it.
\<close>

definition prototypeNames :: "string list" where
  "prototypeNames =
     [''constructor'', ''hasOwnProperty'', ''isPrototypeOf'', ''propertyIsEnumerable'',
      ''toLocaleString'', ''toString'', ''valueOf'', ''__proto__'',
      ''__defineGetter__'', ''__defineSetter__'', ''__lookupGetter__'', ''__lookupSetter__'']"

definition plainName :: "string \<Rightarrow> bool" where
  "plainName v = (v \<notin> set prototypeNames)"

definition plainNames :: "string list \<Rightarrow> bool" where
  "plainNames vs = list_all plainName vs"

text \<open>\<open>if (m[k])\<close> for a plain name \<open>k\<close>: the key is present and its string is not
  empty. (Under a name of \<open>prototypeNames\<close> under which the code has stored nothing,
  \<open>m[k]\<close> is an inherited function and the test succeeds: \<open>log\<close> then reports a
  snapshot and \<open>serializeStorage\<close> throws a \<open>TypeError\<close>. Where a statement below
  depends on it, these names are left out by hypothesis.)\<close>

definition truthy :: "(string \<rightharpoonup> string) \<Rightarrow> string \<Rightarrow> bool" where
  "truthy m k = (case m k of None \<Rightarrow> False | Some v \<Rightarrow> v \<noteq> [])"

definition emptyData :: parsedData where
  "emptyData = \<lparr>versions = [], snapshots = Map.empty, deltas = Map.empty\<rparr>"

text \<open>The body of the loop over the lines in \<open>parseStorage\<close>; \<open>continue\<close> leaves the
  result as it is.\<close>

definition parseLine :: "parsedData \<Rightarrow> string \<Rightarrow> parsedData" where
  "parseLine result line =
     (if startsWith line (CHR '':'') then
        (let withoutColon = substringFrom line 1;
             firstColon = indexOf withoutColon (CHR '':'')
         in if firstColon = - 1 then result
            else (case parseInt (substring withoutColon 0 firstColon) of
                    None \<Rightarrow> result
                  | Some versionNameLength \<Rightarrow>
                      (let versionName = substring withoutColon (firstColon + 1) (firstColon + 1 + versionNameLength);
                           remainingPart = substringFrom withoutColon (firstColon + 1 + versionNameLength)
                       in if \<not> startsWith remainingPart (CHR '':'') then result
                          else (let content = substringFrom remainingPart 1
                                in result\<lparr>versions := versions result @ [versionName],
                                          snapshots := (snapshots result)(versionName \<mapsto> unescapeString content)\<rparr>))))
      else
        (let firstColon = indexOf line (CHR '':'')
         in if firstColon = - 1 then result
            else (case parseInt (substring line 0 firstColon) of
                    None \<Rightarrow> result
                  | Some versionNameLength \<Rightarrow>
                      (let versionName = substring line (firstColon + 1) (firstColon + 1 + versionNameLength);
                           remainingPart = substringFrom line (firstColon + 1 + versionNameLength)
                       in if \<not> startsWith remainingPart (CHR '':'') then result
                          else (let contentPart = substringFrom remainingPart 1
                                in if jsIncludes contentPart (CHR ''='') then
                                     result\<lparr>versions := versions result @ [versionName],
                                            deltas := (deltas result)(versionName \<mapsto> unescapeString contentPart)\<rparr>
                                   else
                                     result\<lparr>versions := versions result @ [versionName],
                                            deltas := (deltas result)(versionName \<mapsto> unescapeString contentPart)\<rparr>)))))"

definition parseStorage :: "string \<Rightarrow> parsedData" where
  "parseStorage storage =
     (if trim storage = [] then emptyData
      else foldl parseLine emptyData (filter (\<lambda>line. trim line \<noteq> []) (splitOn storage LF)))"

text \<open>The body of the loop in \<open>serializeStorage\<close>: the lines one version adds.\<close>

definition serializeVersion :: "parsedData \<Rightarrow> string \<Rightarrow> string list" where
  "serializeVersion data ver =
     (if truthy (snapshots data) ver then
        [CHR '':'' # numToString (Some (int (length ver))) @ CHR '':'' # ver @ CHR '':'' #
           escapeString (the (snapshots data ver))]
      else if truthy (deltas data) ver then
        [numToString (Some (int (length ver))) @ CHR '':'' # ver @ CHR '':'' #
           escapeString (the (deltas data ver))]
      else [])"

definition serializeStorage :: "parsedData \<Rightarrow> string" where
  "serializeStorage data = joinWith (concat (map (serializeVersion data) (versions data))) LF"

definition compress :: "string \<Rightarrow> string" where
  "compress data = data"

definition decompress :: "string \<Rightarrow> string" where
  "decompress data = data"

section \<open>Version resolver\<close>

text \<open>The backward scan for the nearest snapshot, from index \<open>n - 1\<close> down to 0: the base
  text and its index, \<open>('', -1)\<close> when there is none.\<close>

fun findBase :: "parsedData \<Rightarrow> nat \<Rightarrow> string \<times> int" where
  "findBase parsed 0 = ([], - 1)"
| "findBase parsed (Suc i) =
     (let v = versions parsed ! i
      in if truthy (snapshots parsed) v then (the (snapshots parsed v), int i)
         else findBase parsed i)"

text \<open>The replay loop over the names at the indices \<open>baseIndex + 1 .. versionIndex\<close>.\<close>

fun replay :: "parsedData \<Rightarrow> string list \<Rightarrow> string \<Rightarrow> string option" where
  "replay parsed [] currentText = Some currentText"
| "replay parsed (v # vs) currentText =
     (if truthy (deltas parsed) v \<and> \<not> jsIncludes (the (deltas parsed v)) (CHR ''='') then
        do { operations \<leftarrow> decodeDiff (the (deltas parsed v));
             replay parsed vs (applyDiff currentText operations) }
      else replay parsed vs currentText)"

text \<open>The last part of \<open>getVersionText\<close>: the nearest snapshot at or before the
  version, then the replay from the record after it up to the version.\<close>

definition replayFromSnapshot :: "parsedData \<Rightarrow> string \<Rightarrow> string option" where
  "replayFromSnapshot parsed ver =
     (let versionIndex = nat (indexOf (versions parsed) ver);
          base = findBase parsed (Suc versionIndex);
          names = take (nat (int versionIndex - snd base)) (drop (nat (snd base + 1)) (versions parsed))
      in replay parsed names (fst base))"

text \<open>\<open>x || ''\<close> for a text or \<open>null\<close>.\<close>

definition orEmpty :: "string option \<Rightarrow> string" where
  "orEmpty x = (case x of None \<Rightarrow> [] | Some t \<Rightarrow> t)"

text \<open>
  \<open>getVersionText\<close>: the inner \<open>None\<close> is \<open>null\<close>; the outer \<open>None\<close> is a call that does
  not return (a reference chain that never ends, or an edit script on which
  \<open>decodeDiff\<close> does not return).
\<close>

partial_function (option) getVersionText :: "string \<Rightarrow> string \<Rightarrow> string option option" where
  "getVersionText decompressedStorage ver =
     (let parsed = parseStorage decompressedStorage in
      if \<not> jsIncludes (versions parsed) ver then Some None
      else if truthy (snapshots parsed) ver then Some (snapshots parsed ver)
      else if truthy (deltas parsed) ver \<and> jsIncludes (the (deltas parsed ver)) (CHR ''='')
              \<and> indexOf (the (deltas parsed ver)) (CHR ''='') = 0 then
        (let referenceData = the (deltas parsed ver);
             colonIndex = indexOfFrom referenceData (CHR '':'') 1
         in if colonIndex \<noteq> - 1 then
              do { base \<leftarrow> getVersionText decompressedStorage (substring referenceData 1 colonIndex);
                   operations \<leftarrow> decodeDiff (substringFrom referenceData (colonIndex + 1));
                   Some (Some (applyDiff (orEmpty base) operations)) }
            else getVersionText decompressedStorage (substringFrom referenceData 1))
      else
        do { currentText \<leftarrow> replayFromSnapshot parsed ver;
             Some (Some currentText) })"

declare getVersionText.simps [code]

section \<open>Version graph mutator\<close>

datatype error = VersionNotFound string | ContentUnavailable string | TypeError

text \<open>\<open>generateHash\<close>: \<open>hash << 5\<close> and \<open>hash & hash\<close> keep the value a 32-bit integer.\<close>

definition generateHash :: "string \<Rightarrow> string" where
  "generateHash text =
     (let hash = foldl (\<lambda>(hash :: 32 word) c. (push_bit 5 hash - hash) + of_nat (of_char c)) 0 text
      in natToString 36 (nat \<bar>sint hash\<bar>))"

function resolveLoop :: "string list \<Rightarrow> string \<Rightarrow> string" where
  "resolveLoop existingVersions candidate =
     (if jsIncludes existingVersions candidate then resolveLoop existingVersions (candidate @ ''#'')
      else candidate)"
  by pat_completeness auto
termination
proof (relation "measure (\<lambda>(existingVersions, candidate).
         length (filter (\<lambda>x. length candidate \<le> length x) existingVersions))")
  show "wf (measure (\<lambda>(existingVersions, candidate).
         length (filter (\<lambda>x. length candidate \<le> length x) existingVersions)))"
    by simp
next
  fix existingVersions :: "string list" and candidate :: string
  assume "jsIncludes existingVersions candidate"
  then have mem: "candidate \<in> set (filter (\<lambda>x. length candidate \<le> length x) existingVersions)"
    by (simp add: jsIncludes_def)
  have "filter (\<lambda>x. length (candidate @ ''#'') \<le> length x) existingVersions
          = filter (\<lambda>x. length (candidate @ ''#'') \<le> length x)
              (filter (\<lambda>x. length candidate \<le> length x) existingVersions)"
    by (auto intro: filter_cong)
  moreover have "length (filter (\<lambda>x. length (candidate @ ''#'') \<le> length x)
                    (filter (\<lambda>x. length candidate \<le> length x) existingVersions))
                  < length (filter (\<lambda>x. length candidate \<le> length x) existingVersions)"
    using mem by (intro length_filter_less[of candidate]) simp_all
  ultimately show "((existingVersions, candidate @ ''#''), (existingVersions, candidate))
      \<in> measure (\<lambda>(existingVersions, candidate).
            length (filter (\<lambda>x. length candidate \<le> length x) existingVersions))"
    by simp
qed

declare resolveLoop.simps [simp del]

definition resolveVersionName :: "string list \<Rightarrow> string \<Rightarrow> string" where
  "resolveVersionName existingVersions proposedVersion =
     (if \<not> jsIncludes existingVersions proposedVersion then proposedVersion
      else resolveLoop existingVersions (proposedVersion @ ''#''))"

record diffOption =
  content :: string
  optionLength :: nat

text \<open>The hybrid candidates, one for each base version in turn.\<close>

fun hybridOptions :: "diffProvider \<Rightarrow> string \<Rightarrow> string \<Rightarrow> string \<Rightarrow> string list \<Rightarrow> diffOption list option" where
  "hybridOptions dmp text versionName decompressedStorage [] = Some []"
| "hybridOptions dmp text versionName decompressedStorage (baseVersion # rest) =
     do { resolved \<leftarrow> getVersionText decompressedStorage baseVersion;
          let baseText = orEmpty resolved;
              diffContent = encodeDiff (calculateDiff dmp baseText text);
              hybridContent = CHR ''='' # baseVersion @ CHR '':'' # diffContent;
              serialized = numToString (Some (int (length versionName))) @ CHR '':'' # versionName @ CHR '':'' #
                             escapeString hybridContent
          in do { others \<leftarrow> hybridOptions dmp text versionName decompressedStorage rest;
                  Some (\<lparr>content = hybridContent, optionLength = length serialized\<rparr> # others) } }"

definition deltaOption :: "diffProvider \<Rightarrow> parsedData \<Rightarrow> string \<Rightarrow> string \<Rightarrow> string \<Rightarrow> diffOption list option" where
  "deltaOption dmp parsed text versionName decompressedStorage =
     (if length (versions parsed) > 1 then
        do { resolved \<leftarrow> getVersionText decompressedStorage (versions parsed ! (length (versions parsed) - 2));
             let latestText = orEmpty resolved;
                 diffContent = encodeDiff (calculateDiff dmp latestText text);
                 serialized = numToString (Some (int (length versionName))) @ CHR '':'' # versionName @ CHR '':'' #
                                escapeString diffContent
             in Some [\<lparr>content = diffContent, optionLength = length serialized\<rparr>] }
      else Some [])"

text \<open>
  \<open>findBestDiffOption\<close>: \<open>parsed\<close> already holds the new name as its last version.
  \<open>options.sort\<close> is stable; \<open>options[0]\<close> of an empty array is \<open>undefined\<close>, the inner
  \<open>None\<close>.
\<close>

definition findBestDiffOption :: "diffProvider \<Rightarrow> parsedData \<Rightarrow> string \<Rightarrow> string \<Rightarrow> string \<Rightarrow> diffOption option option" where
  "findBestDiffOption dmp parsed text versionName decompressedStorage =
     do { option1 \<leftarrow> deltaOption dmp parsed text versionName decompressedStorage;
          hybrids \<leftarrow> hybridOptions dmp text versionName decompressedStorage
                       (take (length (versions parsed) - 2) (versions parsed));
          let options = sort_key optionLength (option1 @ hybrids)
          in Some (case options of [] \<Rightarrow> None | best # _ \<Rightarrow> Some best) }"

definition addVersionReference :: "string \<Rightarrow> string \<Rightarrow> string \<Rightarrow> string" where
  "addVersionReference storage referencedVersion newVersionName =
     (let decompressed = decompress storage;
          parsed = parseStorage decompressed;
          parsed1 = parsed\<lparr>versions := versions parsed @ [newVersionName]\<rparr>;
          parsed2 = parsed1\<lparr>deltas := (deltas parsed1)(newVersionName \<mapsto> CHR ''='' # referencedVersion)\<rparr>
      in compress (serializeStorage parsed2))"

text \<open>The loop of \<open>commit\<close> over the existing versions: the first one whose text is the
  new text.\<close>

fun findExisting :: "string \<Rightarrow> string \<Rightarrow> string list \<Rightarrow> string option option" where
  "findExisting decompressed text [] = Some None"
| "findExisting decompressed text (existingVersion # rest) =
     do { existingText \<leftarrow> getVersionText decompressed existingVersion;
          if existingText = Some text then Some (Some existingVersion)
          else findExisting decompressed text rest }"

text \<open>\<open>commit\<close>: the optional name is \<open>None\<close> when the argument is left out; an empty
  name is falsy as well. \<open>assignedName\<close> is the first block of \<open>commit\<close>, the name the
  new version gets. The outer \<open>None\<close> of the result is a call that does not return.\<close>

definition assignedName :: "string list \<Rightarrow> string \<Rightarrow> string option \<Rightarrow> string" where
  "assignedName existingVersions text ver =
     (if ver \<noteq> None \<and> ver \<noteq> Some [] then resolveVersionName existingVersions (the ver)
      else resolveVersionName existingVersions (generateHash text))"

definition commit :: "diffProvider \<Rightarrow> string \<Rightarrow> string \<Rightarrow> string option \<Rightarrow> (error + string) option" where
  "commit dmp storage text ver =
     (let decompressed = decompress storage;
          parsed = parseStorage decompressed;
          versionName = assignedName (versions parsed) text ver
      in do { existing \<leftarrow> findExisting decompressed text (versions parsed);
              case existing of
                Some existingVersion \<Rightarrow> Some (Inr (addVersionReference storage existingVersion versionName))
              | None \<Rightarrow>
                  (let parsed1 = parsed\<lparr>versions := versions parsed @ [versionName]\<rparr>
                   in if length (versions parsed1) = 1 then
                        Some (Inr (compress (serializeStorage
                          (parsed1\<lparr>snapshots := (snapshots parsed1)(versionName \<mapsto> text)\<rparr>))))
                      else
                        do { bestStorage \<leftarrow> findBestDiffOption dmp parsed1 text versionName decompressed;
                             case bestStorage of
                               None \<Rightarrow> Some (Inl TypeError)
                             | Some best \<Rightarrow>
                                 Some (Inr (compress (serializeStorage
                                   (parsed1\<lparr>deltas := (deltas parsed1)(versionName \<mapsto> content best)\<rparr>)))) }) })"

definition show' :: "string \<Rightarrow> string \<Rightarrow> string option option" where
  "show' storage ver = getVersionText (decompress storage) ver"

record VersionInfo =
  version :: string
  isSnapshot :: bool

definition log :: "string \<Rightarrow> VersionInfo list" where
  "log storage =
     (let decompressed = decompress storage;
          parsed = parseStorage decompressed
      in map (\<lambda>v. \<lparr>version = v, isSnapshot = truthy (snapshots parsed) v\<rparr>) (versions parsed))"

text \<open>The loop of \<open>reset\<close> over the kept versions.\<close>

definition resetKeep :: "parsedData \<Rightarrow> parsedData \<Rightarrow> string \<Rightarrow> parsedData" where
  "resetKeep parsed newParsedData v =
     (let kept = (if truthy (snapshots parsed) v
                  then newParsedData\<lparr>snapshots := (snapshots newParsedData)(v \<mapsto> the (snapshots parsed v))\<rparr>
                  else newParsedData)
      in if truthy (deltas parsed) v
         then kept\<lparr>deltas := (deltas kept)(v \<mapsto> the (deltas parsed v))\<rparr>
         else kept)"

definition reset :: "string \<Rightarrow> string \<Rightarrow> error + string" where
  "reset storage targetVersion =
     (let decompressed = decompress storage;
          parsed = parseStorage decompressed;
          targetIndex = indexOf (versions parsed) targetVersion
      in if targetIndex = - 1 then Inl (VersionNotFound targetVersion)
         else (let keepVersions = take (nat (targetIndex + 1)) (versions parsed);
                   newParsedData = foldl (resetKeep parsed)
                     \<lparr>versions = keepVersions, snapshots = Map.empty, deltas = Map.empty\<rparr> keepVersions
               in Inr (compress (serializeStorage newParsedData))))"


text \<open>The loop of \<open>squash\<close> over the versions after the target.\<close>

definition squashKeep :: "parsedData \<Rightarrow> parsedData \<Rightarrow> string \<Rightarrow> parsedData" where
  "squashKeep parsed newParsedData v =
     (if truthy (snapshots parsed) v
      then newParsedData\<lparr>snapshots := (snapshots newParsedData)(v \<mapsto> the (snapshots parsed v))\<rparr>
      else if truthy (deltas parsed) v
      then newParsedData\<lparr>deltas := (deltas newParsedData)(v \<mapsto> the (deltas parsed v))\<rparr>
      else newParsedData)"

definition squash :: "string \<Rightarrow> string \<Rightarrow> (error + string) option" where
  "squash storage targetVersion =
     (let decompressed = decompress storage;
          parsed = parseStorage decompressed;
          targetIndex = indexOf (versions parsed) targetVersion
      in if targetIndex = - 1 then Some (Inl (VersionNotFound targetVersion))
         else do { targetText \<leftarrow> getVersionText decompressed targetVersion;
                   case targetText of
                     None \<Rightarrow> Some (Inl (ContentUnavailable targetVersion))
                   | Some txt \<Rightarrow>
                       (let newParsedData = \<lparr>versions = drop (nat targetIndex) (versions parsed),
                                              snapshots = [targetVersion \<mapsto> txt], deltas = Map.empty\<rparr>;
                            kept = foldl (squashKeep parsed) newParsedData
                                     (drop (nat (targetIndex + 1)) (versions parsed))
                        in Some (Inr (compress (serializeStorage kept)))) })"

section \<open>A stand-in for the diff provider\<close>

text \<open>Where a closed statement needs some diff provider, this one is used: it keeps the
  longest common prefix of the two texts, deletes the rest of the old text and inserts
  the rest of the new one.\<close>

definition prefixDiff :: diffProvider where
  "prefixDiff oldText newText =
     (let common = map fst (takeWhile (\<lambda>(a, b). a = b) (zip oldText newText));
          n = length common
      in [(0, common), (- 1, drop n oldText), (1, drop n newText)])"

section \<open>The candidates of the optimal selection, as the specification words them\<close>

text \<open>
  The resolved text of a version (empty when it resolves to \<open>null\<close>); the delta
  against the predecessor; the hybrid reference against a base version; the list of
  all candidates for a history \<open>vs\<close>, the delta against the last version first, then
  the hybrids against the versions before it in position order; and the line a payload
  is serialized to under a name.
\<close>

definition resolvedText :: "string \<Rightarrow> string \<Rightarrow> string" where
  "resolvedText storage v = orEmpty (the (getVersionText storage v))"

definition deltaCandidate :: "diffProvider \<Rightarrow> string \<Rightarrow> string \<Rightarrow> string \<Rightarrow> string" where
  "deltaCandidate dmp storage text predecessor =
     encodeDiff (calculateDiff dmp (resolvedText storage predecessor) text)"

definition hybridCandidate :: "diffProvider \<Rightarrow> string \<Rightarrow> string \<Rightarrow> string \<Rightarrow> string" where
  "hybridCandidate dmp storage text baseVersion =
     CHR ''='' # baseVersion @ CHR '':'' # encodeDiff (calculateDiff dmp (resolvedText storage baseVersion) text)"

definition candidates :: "diffProvider \<Rightarrow> string \<Rightarrow> string \<Rightarrow> string list \<Rightarrow> string list" where
  "candidates dmp storage text vs =
     deltaCandidate dmp storage text (last vs) # map (hybridCandidate dmp storage text) (butlast vs)"

definition serializedLine :: "string \<Rightarrow> string \<Rightarrow> string" where
  "serializedLine versionName payload =
     numToString (Some (int (length versionName))) @ CHR '':'' # versionName @ CHR '':'' # escapeString payload"

text \<open>An edit script as the code builds it: every length is a number and not negative.\<close>

definition validOp :: "DiffOperation \<Rightarrow> bool" where
  "validOp op = (case op of
       Retain n \<Rightarrow> (case n of None \<Rightarrow> False | Some k \<Rightarrow> 0 \<le> k)
     | Delete n \<Rightarrow> (case n of None \<Rightarrow> False | Some k \<Rightarrow> 0 \<le> k)
     | Insert t \<Rightarrow> True)"

text \<open>A payload that the resolver neither follows as a reference nor replays as an edit
  script: it is falsy, or it holds \<open>=\<close> somewhere but not as its first character.\<close>

definition inert :: "(string \<rightharpoonup> string) \<Rightarrow> string \<Rightarrow> bool" where
  "inert m u = (if truthy m u then jsIncludes (the (m u)) (CHR ''='') \<and> indexOf (the (m u)) (CHR ''='') \<noteq> 0 else True)"

text \<open>
  Strings the escape codec gives back: \<open>noPair a b s\<close> holds when \<open>a\<close> is nowhere in
  \<open>s\<close> directly followed by \<open>b\<close>, and a string is stable when no backslash in it is
  followed by one of the letters \<open>t\<close>, \<open>r\<close>, \<open>n\<close>. \<open>escBy tbl\<close> is the escaping of one
  character, by the table \<open>tbl\<close> of characters and their letters.
\<close>

fun noPair :: "char \<Rightarrow> char \<Rightarrow> string \<Rightarrow> bool" where
  "noPair a b (x # y # s) = ((x \<noteq> a \<or> y \<noteq> b) \<and> noPair a b (y # s))"
| "noPair a b s = True"

definition escapeStable :: "string \<Rightarrow> bool" where
  "escapeStable s = (noPair BSL (CHR ''t'') s \<and> noPair BSL (CHR ''r'') s \<and> noPair BSL (CHR ''n'') s)"

definition escBy :: "(char \<times> char) list \<Rightarrow> char \<Rightarrow> string" where
  "escBy tbl c = (if c = BSL then [BSL, BSL]
                  else (case map_of tbl c of Some l \<Rightarrow> [BSL, l] | None \<Rightarrow> [c]))"

text \<open>Parsed data as \<open>parseStorage\<close> returns it: no name holds a line break and
  every payload is stable.\<close>

definition cleanData :: "parsedData \<Rightarrow> bool" where
  "cleanData r = (list_all (\<lambda>v. LF \<notin> set v) (versions r)
      \<and> (\<forall>u p. snapshots r u = Some p \<longrightarrow> escapeStable p)
      \<and> (\<forall>u p. deltas r u = Some p \<longrightarrow> escapeStable p))"

text \<open>The first entry of \<open>log\<close>, when there is one, is a snapshot.\<close>

definition firstIsSnapshot :: "string \<Rightarrow> bool" where
  "firstIsSnapshot storage = (case log storage of [] \<Rightarrow> True | first # _ \<Rightarrow> isSnapshot first)"

section \<open>Facts about the escape codec\<close>

lemma replaceChar_concat_map:
  "replaceChar c r (concat (map f s)) = concat (map (\<lambda>x. replaceChar c r (f x)) s)"
  by (induction s) (simp_all add: replaceChar_def)

lemma replaceChar_as_map: "replaceChar c r s = concat (map (\<lambda>x. if x = c then r else [x]) s)"
  by (simp add: replaceChar_def)

lemma escapeString_escBy:
  "escapeString s = concat (map (escBy [(LF, CHR ''n''), (CR, CHR ''r''), (TAB, CHR ''t'')]) s)"
proof -
  have "escapeString s = concat (map (\<lambda>x.
          replaceChar TAB [BSL, CHR ''t''] (replaceChar CR [BSL, CHR ''r'']
            (replaceChar LF [BSL, CHR ''n''] (if x = BSL then [BSL, BSL] else [x])))) s)"
    unfolding escapeString_def
    by (simp add: replaceChar_as_map[of BSL] replaceChar_concat_map)
  also have "\<dots> = concat (map (escBy [(LF, CHR ''n''), (CR, CHR ''r''), (TAB, CHR ''t'')]) s)"
    by (rule arg_cong[where f = concat], rule map_cong) (auto simp: escBy_def replaceChar_def)
  finally show ?thesis .
qed

lemma replacePair_other: "x \<noteq> a \<Longrightarrow> replacePair a b r (x # s) = x # replacePair a b r s"
  by (cases s) simp_all

lemma replacePair_first_only:
  "s = [] \<or> hd s \<noteq> b \<Longrightarrow> replacePair a b r (a # s) = a # replacePair a b r s"
  by (cases s) auto

lemma hd_concat_escBy:
  assumes "L \<noteq> BSL" "p \<noteq> []" "hd (concat (map (escBy tbl) p)) = L"
  shows "hd p = L"
proof -
  obtain c p' where p: "p = c # p'" using assms(2) by (cases p) auto
  have "hd (escBy tbl c) = BSL \<or> hd (escBy tbl c) = c" "escBy tbl c \<noteq> []"
    by (auto simp: escBy_def split: option.splits)
  then show ?thesis using assms(1,3) p by auto
qed

lemma unescape_pass:
  assumes X: "map_of tbl X = Some L" "X \<noteq> BSL" "L \<noteq> BSL"
    and others: "\<And>c l. map_of tbl c = Some l \<Longrightarrow> c \<noteq> X \<Longrightarrow> l \<noteq> L \<and> l \<noteq> BSL"
    and tbl': "map_of tbl' = (map_of tbl)(X := None)"
    and ok: "noPair BSL L p"
  shows "replacePair BSL L [X] (concat (map (escBy tbl) p)) = concat (map (escBy tbl') p)"
  using ok
proof (induction p)
  case Nil
  then show ?case by simp
next
  case (Cons c p)
  have okp: "noPair BSL L p" using Cons.prems by (cases p) auto
  note IH = Cons.IH[OF okp]
  let ?rest = "concat (map (escBy tbl) p)"
  show ?case
  proof (cases "c = BSL")
    case True
    have nxt: "?rest = [] \<or> hd ?rest \<noteq> L"
    proof (cases p)
      case Nil
      then show ?thesis by simp
    next
      case (Cons d p')
      with Cons.prems True have "d \<noteq> L" by auto
      then show ?thesis using hd_concat_escBy[OF X(3), of p tbl] Cons by auto
    qed
    have "replacePair BSL L [X] (BSL # BSL # ?rest) = BSL # replacePair BSL L [X] (BSL # ?rest)"
      using X(3) by simp
    also have "\<dots> = BSL # BSL # replacePair BSL L [X] ?rest"
      using replacePair_first_only[OF nxt] by simp
    finally have calc: "replacePair BSL L [X] (BSL # BSL # ?rest) = BSL # BSL # replacePair BSL L [X] ?rest" .
    have e: "concat (map (escBy tbl) (c # p)) = BSL # BSL # ?rest"
      and e': "concat (map (escBy tbl') (c # p)) = BSL # BSL # concat (map (escBy tbl') p)"
      using True by (simp_all add: escBy_def)
    show ?thesis unfolding e e' by (simp only: calc IH)
  next
    case False
    show ?thesis
    proof (cases "map_of tbl c")
      case None
      then have n': "map_of tbl' c = None" using tbl' by simp
      have e: "concat (map (escBy tbl) (c # p)) = c # ?rest"
        and e': "concat (map (escBy tbl') (c # p)) = c # concat (map (escBy tbl') p)"
        using False None n' by (simp_all add: escBy_def)
      have calc: "replacePair BSL L [X] (c # ?rest) = c # replacePair BSL L [X] ?rest"
        using False by (rule replacePair_other)
      show ?thesis unfolding e e' by (simp only: calc IH)
    next
      case (Some l)
      show ?thesis
      proof (cases "c = X")
        case True
        then have lL: "l = L" using Some X(1) by simp
        have n': "map_of tbl' c = None" using tbl' True by simp
        have e: "concat (map (escBy tbl) (c # p)) = BSL # L # ?rest"
          and e': "concat (map (escBy tbl') (c # p)) = X # concat (map (escBy tbl') p)"
          using False Some n' lL True by (simp_all add: escBy_def)
        have calc: "replacePair BSL L [X] (BSL # L # ?rest) = X # replacePair BSL L [X] ?rest"
          by simp
        show ?thesis unfolding e e' by (simp only: calc IH)
      next
        case cX: False
        from others[OF Some cX] have l: "l \<noteq> L" "l \<noteq> BSL" by simp_all
        have s': "map_of tbl' c = Some l" using tbl' cX Some by simp
        have e: "concat (map (escBy tbl) (c # p)) = BSL # l # ?rest"
          and e': "concat (map (escBy tbl') (c # p)) = BSL # l # concat (map (escBy tbl') p)"
          using False Some s' by (simp_all add: escBy_def)
        have calc: "replacePair BSL L [X] (BSL # l # ?rest) = BSL # l # replacePair BSL L [X] ?rest"
          using l by (simp add: replacePair_other)
        show ?thesis unfolding e e' by (simp only: calc IH)
      qed
    qed
  qed
qed

lemma unescape_last_pass:
  "replacePair BSL BSL [BSL] (concat (map (escBy []) p)) = p"
proof (induction p)
  case Nil
  then show ?case by simp
next
  case (Cons c p)
  then show ?case by (cases "c = BSL") (simp_all add: escBy_def replacePair_other)
qed

lemma unescape_escape_stable:
  assumes "escapeStable p"
  shows "unescapeString (escapeString p) = p"
proof -
  have p1: "replacePair BSL (CHR ''t'') [TAB] (concat (map (escBy [(LF, CHR ''n''), (CR, CHR ''r''), (TAB, CHR ''t'')]) p))
          = concat (map (escBy [(LF, CHR ''n''), (CR, CHR ''r'')]) p)"
    by (rule unescape_pass[where L = "CHR ''t''"]) (use assms in \<open>auto simp: escapeStable_def split: if_splits\<close>)
  have p2: "replacePair BSL (CHR ''r'') [CR] (concat (map (escBy [(LF, CHR ''n''), (CR, CHR ''r'')]) p))
          = concat (map (escBy [(LF, CHR ''n'')]) p)"
    by (rule unescape_pass[where L = "CHR ''r''"]) (use assms in \<open>auto simp: escapeStable_def split: if_splits\<close>)
  have p3: "replacePair BSL (CHR ''n'') [LF] (concat (map (escBy [(LF, CHR ''n'')]) p))
          = concat (map (escBy []) p)"
    by (rule unescape_pass[where L = "CHR ''n''"]) (use assms in \<open>auto simp: escapeStable_def split: if_splits\<close>)
  show ?thesis
    unfolding unescapeString_def escapeString_escBy p1 p2 p3 by (rule unescape_last_pass)
qed

lemma noPair_Cons: "noPair a b (y # t) = ((t = [] \<or> y \<noteq> a \<or> hd t \<noteq> b) \<and> noPair a b t)"
  by (cases t) auto

lemma replacePair_Nil_iff: "replacePair a b [x] s = [] \<longleftrightarrow> s = []"
  by (induction a b "[x]" s rule: replacePair.induct) auto

lemma hd_replacePair:
  "hd (replacePair a b [x] (y # t)) = (if y = a \<and> t \<noteq> [] \<and> hd t = b then x else y)"
  by (cases t) auto

lemma noPair_replacePair_same:
  assumes "x \<noteq> a" "x \<noteq> b"
  shows "noPair a b (replacePair a b [x] s)"
proof (induction "length s" arbitrary: s rule: less_induct)
  case less
  show ?case
  proof -
    consider (short) "length s < 2" | (pair) y z t where "s = y # z # t"
      by (cases s; cases "tl s") auto
    then show ?thesis
    proof cases
    case (pair y z t)
    then have s: "s = y # z # t" by simp
    show ?thesis
    proof (cases "y = a \<and> z = b")
      case True
      have "noPair a b (replacePair a b [x] t)" using less s by simp
      then show ?thesis using True s assms by (simp add: noPair_Cons)
    next
      case False
      have "noPair a b (replacePair a b [x] (z # t))" using less s by simp
      then show ?thesis using False s assms
        by (auto simp: noPair_Cons hd_replacePair replacePair_Nil_iff)
    qed
  next
    case short
    then show ?thesis by (cases s; cases "tl s") auto
  qed
  qed
qed

lemma noPair_replacePair_other:
  assumes "x \<noteq> a'" "x \<noteq> b'"
  shows "noPair a' b' s \<Longrightarrow> noPair a' b' (replacePair a b [x] s)"
proof (induction "length s" arbitrary: s rule: less_induct)
  case less
  show ?case
  proof -
    consider (short) "length s < 2" | (pair) y z t where "s = y # z # t"
      by (cases s; cases "tl s") auto
    then show ?thesis
    proof cases
    case (pair y z t)
    then have s: "s = y # z # t" by simp
    have zt: "noPair a' b' (z # t)" using less.prems s by simp
    show ?thesis
    proof (cases "y = a \<and> z = b")
      case True
      have "noPair a' b' t" using zt by (simp add: noPair_Cons)
      then have "noPair a' b' (replacePair a b [x] t)" using less.hyps s by simp
      then show ?thesis using True s assms by (simp add: noPair_Cons)
    next
      case False
      have "noPair a' b' (replacePair a b [x] (z # t))" using less.hyps s zt by simp
      then show ?thesis using False s assms less.prems
        by (auto simp: noPair_Cons hd_replacePair replacePair_Nil_iff)
    qed
  next
    case short
    then show ?thesis by (cases s; cases "tl s") auto
  qed
  qed
qed

lemma noPair_replacePair_backslash:
  assumes "L \<noteq> BSL"
  shows "noPair BSL L s \<Longrightarrow> noPair BSL L (replacePair BSL BSL [BSL] s)"
proof (induction "length s" arbitrary: s rule: less_induct)
  case less
  show ?case
  proof -
    consider (short) "length s < 2" | (pair) y z t where "s = y # z # t"
      by (cases s; cases "tl s") auto
    then show ?thesis
    proof cases
    case (pair y z t)
    then have s: "s = y # z # t" by simp
    have zt: "noPair BSL L (z # t)" using less.prems s by simp
    show ?thesis
    proof (cases "y = BSL \<and> z = BSL")
      case True
      have t: "noPair BSL L t" "t = [] \<or> hd t \<noteq> L"
        using zt True by (simp_all add: noPair_Cons)
      have "noPair BSL L (replacePair BSL BSL [BSL] t)" using less.hyps s t(1) by simp
      moreover have "replacePair BSL BSL [BSL] t = [] \<or> hd (replacePair BSL BSL [BSL] t) \<noteq> L"
        using t(2) assms by (cases t) (auto simp: hd_replacePair)
      ultimately show ?thesis using True s by (simp add: noPair_Cons)
    next
      case False
      have "noPair BSL L (replacePair BSL BSL [BSL] (z # t))" using less.hyps s zt by simp
      then show ?thesis using False s assms less.prems
        by (auto simp: noPair_Cons hd_replacePair replacePair_Nil_iff)
    qed
  next
    case short
    then show ?thesis by (cases s; cases "tl s") auto
  qed
  qed
qed

lemma unescapeString_stable: "escapeStable (unescapeString x)"
proof -
  let ?s1 = "replacePair BSL (CHR ''t'') [TAB] x"
  let ?s2 = "replacePair BSL (CHR ''r'') [CR] ?s1"
  let ?s3 = "replacePair BSL (CHR ''n'') [LF] ?s2"
  have t1: "noPair BSL (CHR ''t'') ?s1" by (rule noPair_replacePair_same) simp_all
  have t2: "noPair BSL (CHR ''t'') ?s2" using t1 by (rule noPair_replacePair_other[rotated 2]) simp_all
  have r2: "noPair BSL (CHR ''r'') ?s2" by (rule noPair_replacePair_same) simp_all
  have t3: "noPair BSL (CHR ''t'') ?s3" using t2 by (rule noPair_replacePair_other[rotated 2]) simp_all
  have r3: "noPair BSL (CHR ''r'') ?s3" using r2 by (rule noPair_replacePair_other[rotated 2]) simp_all
  have n3: "noPair BSL (CHR ''n'') ?s3" by (rule noPair_replacePair_same) simp_all
  show ?thesis
    unfolding escapeStable_def unescapeString_def
    using t3 r3 n3 by (simp add: noPair_replacePair_backslash)
qed

lemma unescape_escape_unescape: "unescapeString (escapeString (unescapeString x)) = unescapeString x"
  by (rule unescape_escape_stable) (rule unescapeString_stable)

section \<open>Facts about the record codec\<close>

lemma parseLine_dom:
  assumes "dom (snapshots r) \<union> dom (deltas r) \<subseteq> set (versions r)"
  shows "dom (snapshots (parseLine r l)) \<union> dom (deltas (parseLine r l)) \<subseteq> set (versions (parseLine r l))"
  using assms by (auto simp: parseLine_def Let_def split: option.splits if_splits)

lemma foldl_parseLine_dom:
  "dom (snapshots r) \<union> dom (deltas r) \<subseteq> set (versions r) \<Longrightarrow>
   dom (snapshots (foldl parseLine r ls)) \<union> dom (deltas (foldl parseLine r ls))
     \<subseteq> set (versions (foldl parseLine r ls))"
proof (induction ls arbitrary: r)
  case Nil
  then show ?case by simp
next
  case (Cons l ls)
  from Cons.prems have "dom (snapshots (parseLine r l)) \<union> dom (deltas (parseLine r l))
      \<subseteq> set (versions (parseLine r l))"
    by (rule parseLine_dom)
  then show ?case using Cons.IH by simp
qed

lemma parseStorage_dom:
  "dom (snapshots (parseStorage s)) \<union> dom (deltas (parseStorage s)) \<subseteq> set (versions (parseStorage s))"
  unfolding parseStorage_def using foldl_parseLine_dom[of emptyData]
  by (simp add: emptyData_def)

lemma parseStorage_Nil: "parseStorage [] = emptyData"
  by (simp add: parseStorage_def trim_def)

section \<open>Facts about the diff codec\<close>

lemma digitChar_isDigit: "d < 10 \<Longrightarrow> isDigit (digitChar d)"
proof -
  assume "d < 10"
  then have "d \<in> {0,1,2,3,4,5,6,7,8,9}" by auto
  then show ?thesis by (auto simp: digitChar_def isDigit_def)
qed

lemma digitValue_digitChar: "d < 10 \<Longrightarrow> digitValue (digitChar d) = d"
proof -
  assume "d < 10"
  then have "d \<in> {0,1,2,3,4,5,6,7,8,9}" by auto
  then show ?thesis by (auto simp: digitChar_def digitValue_def)
qed

lemma natToString_digits: "c \<in> set (natToString 10 n) \<Longrightarrow> isDigit c"
proof (induction "10::nat" n arbitrary: c rule: natToString.induct)
  case (1 n)
  show ?case
  proof (cases "n < 10")
    case True
    with "1.prems" show ?thesis by (subst (asm) natToString.simps) (simp add: digitChar_isDigit)
  next
    case False
    with "1.prems" have "c \<in> set (natToString 10 (n div 10)) \<or> c = digitChar (n mod 10)"
      by (subst (asm) natToString.simps) auto
    then show ?thesis
      using "1.hyps" False by (auto simp: digitChar_isDigit)
  qed
qed

lemma natToString_nonempty: "natToString r n \<noteq> []"
  by (subst natToString.simps) simp

lemma natToString_value:
  "foldl (\<lambda>a c. a * 10 + digitValue c) 0 (natToString 10 n) = n"
proof (induction "10::nat" n rule: natToString.induct)
  case (1 n)
  show ?case
  proof (cases "n < 10")
    case True
    then show ?thesis by (subst natToString.simps) (simp add: digitValue_digitChar)
  next
    case False
    then have "natToString 10 n = natToString 10 (n div 10) @ [digitChar (n mod 10)]"
      by (subst natToString.simps) simp
    then show ?thesis using "1.hyps" False by (simp add: digitValue_digitChar)
  qed
qed

lemma isDigit_digitValue: "isDigit c \<Longrightarrow> digitValue c < 10"
  by (auto simp: isDigit_def digitValue_def Let_def)

lemma isDigit_not_ws: "isDigit c \<Longrightarrow> \<not> isWhiteSpace c"
  by (auto simp: isDigit_def isWhiteSpace_def)

lemma isDigit_chars: "isDigit c \<Longrightarrow> c \<noteq> CHR ''-'' \<and> c \<noteq> CHR ''+'' \<and> c \<noteq> CHR ''x'' \<and> c \<noteq> CHR ''X'' \<and> c \<noteq> CHR '':''"
  by (auto simp: isDigit_def)

lemma parseInt_digits:
  assumes "ds \<noteq> []" "\<forall>c\<in>set ds. isDigit c"
  shows "parseInt ds = Some (int (foldl (\<lambda>a c. a * 10 + digitValue c) 0 ds))"
proof -
  obtain d ds' where ds: "ds = d # ds'" using assms(1) by (cases ds) auto
  have d: "isDigit d" using assms(2) ds by simp
  have dw: "dropWhile isWhiteSpace ds = ds" using d ds by (simp add: isDigit_not_ws)
  have nohex: "\<not> (case ds of a # b # _ \<Rightarrow> a = CHR ''0'' \<and> (b = CHR ''x'' \<or> b = CHR ''X'') | _ \<Rightarrow> False)"
    using assms(2) ds isDigit_chars by (cases ds') auto
  have tw: "takeWhile (\<lambda>c. digitValue c < 10) ds = ds"
    using assms(2) by (simp add: isDigit_digitValue)
  have sw: "\<not> startsWith ds (CHR ''-'')" "\<not> startsWith ds (CHR ''+'')"
    using d ds isDigit_chars by (auto simp: startsWith_def)
  show ?thesis
    unfolding parseInt_def by (simp add: Let_def dw nohex tw sw assms(1))
qed

lemma parseInt_natToString: "parseInt (natToString 10 n) = Some (int n)"
  using parseInt_digits[of "natToString 10 n"] natToString_digits natToString_nonempty
  by (simp add: natToString_value)

lemma nat_int_plus1: "nat (int n + 1) = Suc n"
  by linarith

lemma nat_int_plus: "nat (int a + int b) = a + b"
  by linarith

lemma charAt_append_Cons: "charAt (pre @ c # xs) (int (length pre)) = Some c"
  by (simp add: charAt_def)

lemma takeWhile_digits:
  assumes "\<forall>c\<in>set ds. isDigit c" "rest = [] \<or> \<not> isDigit (hd rest)"
  shows "takeWhile isDigit (ds @ rest) = ds"
proof (cases rest)
  case Nil
  then show ?thesis using assms(1) by simp
next
  case (Cons r rs)
  with assms(2) have "\<not> isDigit r" by simp
  then show ?thesis using assms(1) Cons by (simp add: takeWhile_append2)
qed

lemma takeWhile_to_colon:
  assumes "\<forall>c\<in>set ds. isDigit c"
  shows "takeWhile (\<lambda>c. c \<noteq> CHR '':'') (ds @ CHR '':'' # rest) = ds"
proof -
  have "\<forall>c\<in>set ds. c \<noteq> CHR '':''" using assms isDigit_chars by blast
  then show ?thesis by (simp add: takeWhile_append2)
qed

lemma substring_middle:
  "substring (pre @ t @ rest) (int (length pre)) (int (length pre) + int (length t)) = t"
  by (simp add: substring_def clampIndex_def Let_def nat_int_plus)

lemma substring_tail:
  "length t \<le> n \<Longrightarrow> substring (pre @ t) (int (length pre)) (int (length pre) + int n) = t"
  by (simp add: substring_def clampIndex_def Let_def min_def nat_int_plus)

lemma decodeLoop_skip_step:
  assumes "0 \<le> i" "i < int (length E)"
    and "E ! nat i \<noteq> CHR ''R''" "E ! nat i \<noteq> CHR ''D''" "E ! nat i \<noteq> CHR ''I''"
  shows "decodeLoop E i acc = decodeLoop E (i + 1) acc"
  using assms by (subst decodeLoop.simps) (simp add: Let_def charAt_def)

lemma decodeLoop_R_step:
  assumes "0 \<le> i" "i < int (length E)" "E ! nat i = CHR ''R''"
    and "takeWhile isDigit (drop (nat (i + 1)) E) = ds" "j = i + 1 + int (length ds)"
  shows "decodeLoop E i acc = decodeLoop E j (acc @ [Retain (parseInt ds)])"
  using assms by (subst decodeLoop.simps) (simp add: Let_def charAt_def)

lemma decodeLoop_D_step:
  assumes "0 \<le> i" "i < int (length E)" "E ! nat i = CHR ''D''"
    and "takeWhile isDigit (drop (nat (i + 1)) E) = ds" "j = i + 1 + int (length ds)"
  shows "decodeLoop E i acc = decodeLoop E j (acc @ [Delete (parseInt ds)])"
  using assms by (subst decodeLoop.simps) (simp add: Let_def charAt_def)

lemma decodeLoop_I_step:
  assumes "0 \<le> i" "i < int (length E)" "E ! nat i = CHR ''I''"
    and "takeWhile (\<lambda>c. c \<noteq> CHR '':'') (drop (nat (i + 1)) E) = ds"
    and "parseInt ds = Some len" "i3 = i + 1 + int (length ds) + 1"
    and "substring E i3 (i3 + len) = t" "j = i3 + len"
  shows "decodeLoop E i acc = decodeLoop E j (acc @ [Insert t])"
  using assms by (subst decodeLoop.simps) (simp add: Let_def charAt_def)

lemma decodeLoop_retain:
  assumes "0 \<le> k" "rest = [] \<or> \<not> isDigit (hd rest)"
  shows "decodeLoop (pre @ encodeOp (Retain (Some k)) @ rest) (int (length pre)) acc
       = decodeLoop (pre @ encodeOp (Retain (Some k)) @ rest)
           (int (length pre) + int (length (encodeOp (Retain (Some k))))) (acc @ [Retain (Some k)])"
proof -
  define ds where "ds = natToString 10 (nat k)"
  have enc: "encodeOp (Retain (Some k)) = CHR ''R'' # ds"
    using assms(1) by (simp add: encodeOp_def numToString_def ds_def)
  have dig: "\<forall>c\<in>set ds. isDigit c" using natToString_digits ds_def by blast
  have pi: "parseInt ds = Some k" using parseInt_natToString[of "nat k"] assms(1) by (simp add: ds_def)
  have tw: "takeWhile isDigit (ds @ rest) = ds" using takeWhile_digits[OF dig assms(2)] .
  have "decodeLoop (pre @ encodeOp (Retain (Some k)) @ rest) (int (length pre)) acc
      = decodeLoop (pre @ encodeOp (Retain (Some k)) @ rest)
          (int (length pre) + int (length (encodeOp (Retain (Some k))))) (acc @ [Retain (parseInt ds)])"
  proof (rule decodeLoop_R_step[where ds = ds])
    show "takeWhile isDigit (drop (nat (int (length pre) + 1)) (pre @ encodeOp (Retain (Some k)) @ rest)) = ds"
      by (simp add: enc nat_int_plus1 tw)
  qed (simp_all add: enc)
  then show ?thesis by (simp add: pi)
qed

lemma decodeLoop_delete:
  assumes "0 \<le> k" "rest = [] \<or> \<not> isDigit (hd rest)"
  shows "decodeLoop (pre @ encodeOp (Delete (Some k)) @ rest) (int (length pre)) acc
       = decodeLoop (pre @ encodeOp (Delete (Some k)) @ rest)
           (int (length pre) + int (length (encodeOp (Delete (Some k))))) (acc @ [Delete (Some k)])"
proof -
  define ds where "ds = natToString 10 (nat k)"
  have enc: "encodeOp (Delete (Some k)) = CHR ''D'' # ds"
    using assms(1) by (simp add: encodeOp_def numToString_def ds_def)
  have dig: "\<forall>c\<in>set ds. isDigit c" using natToString_digits ds_def by blast
  have pi: "parseInt ds = Some k" using parseInt_natToString[of "nat k"] assms(1) by (simp add: ds_def)
  have tw: "takeWhile isDigit (ds @ rest) = ds" using takeWhile_digits[OF dig assms(2)] .
  have "decodeLoop (pre @ encodeOp (Delete (Some k)) @ rest) (int (length pre)) acc
      = decodeLoop (pre @ encodeOp (Delete (Some k)) @ rest)
          (int (length pre) + int (length (encodeOp (Delete (Some k))))) (acc @ [Delete (parseInt ds)])"
  proof (rule decodeLoop_D_step[where ds = ds])
    show "takeWhile isDigit (drop (nat (int (length pre) + 1)) (pre @ encodeOp (Delete (Some k)) @ rest)) = ds"
      by (simp add: enc nat_int_plus1 tw)
  qed (simp_all add: enc)
  then show ?thesis by (simp add: pi)
qed

lemma decodeLoop_insert:
  "decodeLoop (pre @ encodeOp (Insert t) @ rest) (int (length pre)) acc
     = decodeLoop (pre @ encodeOp (Insert t) @ rest)
         (int (length pre) + int (length (encodeOp (Insert t)))) (acc @ [Insert t])"
proof -
  define ds where "ds = natToString 10 (length t)"
  have enc: "encodeOp (Insert t) = CHR ''I'' # ds @ CHR '':'' # t"
    by (simp add: encodeOp_def numToString_def ds_def)
  have dig: "\<forall>c\<in>set ds. isDigit c" using natToString_digits ds_def by blast
  have pi: "parseInt ds = Some (int (length t))" using parseInt_natToString by (simp add: ds_def)
  have tw: "takeWhile (\<lambda>c. c \<noteq> CHR '':'') (ds @ CHR '':'' # t @ rest) = ds"
    using takeWhile_to_colon[OF dig] .
  show ?thesis
  proof (rule decodeLoop_I_step[where ds = ds and len = "int (length t)"
        and ?i3.0 = "int (length (pre @ CHR ''I'' # ds @ [CHR '':'']))"])
    show "takeWhile (\<lambda>c. c \<noteq> CHR '':'') (drop (nat (int (length pre) + 1)) (pre @ encodeOp (Insert t) @ rest)) = ds"
      by (simp add: enc nat_int_plus1 tw)
    show "substring (pre @ encodeOp (Insert t) @ rest) (int (length (pre @ CHR ''I'' # ds @ [CHR '':''])))
            (int (length (pre @ CHR ''I'' # ds @ [CHR '':''])) + int (length t)) = t"
      using substring_middle[of "pre @ CHR ''I'' # ds @ [CHR '':'']" t rest] by (simp add: enc)
  qed (simp_all add: enc pi)
qed

lemma decodeLoop_token:
  assumes "validOp op" "rest = [] \<or> \<not> isDigit (hd rest)"
  shows "decodeLoop (pre @ encodeOp op @ rest) (int (length pre)) acc
       = decodeLoop (pre @ encodeOp op @ rest) (int (length pre) + int (length (encodeOp op))) (acc @ [op])"
proof (cases op)
  case (Retain n)
  with assms(1) obtain k where "n = Some k" "0 \<le> k" by (cases n) (auto simp: validOp_def)
  with Retain show ?thesis using decodeLoop_retain[OF _ assms(2)] by simp
next
  case (Delete n)
  with assms(1) obtain k where "n = Some k" "0 \<le> k" by (cases n) (auto simp: validOp_def)
  with Delete show ?thesis using decodeLoop_delete[OF _ assms(2)] by simp
next
  case (Insert t)
  then show ?thesis using decodeLoop_insert by simp
qed

lemma encodeOp_head: "encodeOp op \<noteq> [] \<and> \<not> isDigit (hd (encodeOp op))"
  by (cases op) (auto simp: encodeOp_def isDigit_def)

lemma decodeLoop_tokens:
  assumes "list_all validOp ops" "post = [] \<or> \<not> isDigit (hd post)"
  shows "decodeLoop (pre @ concat (map encodeOp ops) @ post) (int (length pre)) acc
       = decodeLoop (pre @ concat (map encodeOp ops) @ post)
           (int (length pre) + int (length (concat (map encodeOp ops)))) (acc @ ops)"
  using assms(1)
proof (induction ops arbitrary: pre acc)
  case Nil
  then show ?case by simp
next
  case (Cons op ops)
  let ?rest = "concat (map encodeOp ops) @ post"
  have v: "validOp op" and vs: "list_all validOp ops" using Cons.prems by simp_all
  have hd: "?rest = [] \<or> \<not> isDigit (hd ?rest)"
  proof (cases ops)
    case Nil
    then show ?thesis using assms(2) by simp
  next
    case (Cons o2 os)
    then show ?thesis using encodeOp_head[of o2] by simp
  qed
  have "decodeLoop (pre @ encodeOp op @ ?rest) (int (length pre)) acc
      = decodeLoop (pre @ encodeOp op @ ?rest) (int (length pre) + int (length (encodeOp op))) (acc @ [op])"
    using decodeLoop_token[OF v hd] .
  also have "\<dots> = decodeLoop ((pre @ encodeOp op) @ ?rest) (int (length (pre @ encodeOp op))) (acc @ [op])"
    by simp
  also have "\<dots> = decodeLoop ((pre @ encodeOp op) @ ?rest)
       (int (length (pre @ encodeOp op)) + int (length (concat (map encodeOp ops)))) ((acc @ [op]) @ ops)"
    using Cons.IH[OF vs] .
  finally show ?case by (simp add: add.assoc)
qed

lemma decodeLoop_junk:
  assumes "\<forall>c\<in>set junk. c \<noteq> CHR ''R'' \<and> c \<noteq> CHR ''D'' \<and> c \<noteq> CHR ''I''"
  shows "decodeLoop (pre @ junk @ rest) (int (length pre)) acc
       = decodeLoop (pre @ junk @ rest) (int (length pre) + int (length junk)) acc"
  using assms
proof (induction junk arbitrary: pre)
  case Nil
  then show ?case by simp
next
  case (Cons c junk)
  have "decodeLoop (pre @ (c # junk) @ rest) (int (length pre)) acc
      = decodeLoop (pre @ (c # junk) @ rest) (int (length pre) + 1) acc"
    by (rule decodeLoop_skip_step) (use Cons.prems in simp_all)
  also have "pre @ (c # junk) @ rest = (pre @ [c]) @ junk @ rest" by simp
  also have "int (length pre) + 1 = int (length (pre @ [c]))" by simp
  also have "decodeLoop ((pre @ [c]) @ junk @ rest) (int (length (pre @ [c]))) acc
       = decodeLoop ((pre @ [c]) @ junk @ rest) (int (length (pre @ [c])) + int (length junk)) acc"
    using Cons.IH[of "pre @ [c]"] Cons.prems by simp
  also have "int (length (pre @ [c])) + int (length junk) = int (length pre) + int (length (c # junk))"
    by simp
  finally show ?case by simp
qed

lemma decodeLoop_end: "int (length encoded) \<le> i \<Longrightarrow> decodeLoop encoded i acc = Some acc"
  by (subst decodeLoop.simps) simp

lemma popRetains_subset: "set (popRetains ops) \<subseteq> set ops"
proof (induction ops rule: popRetains.induct)
  case (1 ops)
  show ?case
  proof (cases "ops \<noteq> [] \<and> isRetain (last ops)")
    case True
    then have "popRetains ops = popRetains (butlast ops)" by (subst popRetains.simps) simp
    moreover have "set (butlast ops) \<subseteq> set ops" by (meson in_set_butlastD subsetI)
    ultimately show ?thesis using "1.IH" True by auto
  next
    case False
    then have "popRetains ops = ops" by (subst popRetains.simps) auto
    then show ?thesis by simp
  qed
qed

lemma popRetains_valid: "list_all validOp ops \<Longrightarrow> list_all validOp (popRetains ops)"
  using popRetains_subset by (auto simp: list_all_iff)

section \<open>Parsing a serialization\<close>

lemma indexOfAux_append:
  "c \<notin> set ds \<Longrightarrow> indexOfAux (ds @ c # rest) c k = k + int (length ds)"
  by (induction ds arbitrary: k) auto

lemma indexOf_after_digits:
  "indexOf (natToString 10 n @ CHR '':'' # rest) (CHR '':'') = int (length (natToString 10 n))"
proof -
  have "CHR '':'' \<notin> set (natToString 10 n)"
    using natToString_digits isDigit_chars by blast
  then show ?thesis by (simp add: indexOf_def indexOfAux_append)
qed

lemma substringFrom_one: "substringFrom (x # xs) 1 = xs"
  by (simp add: substringFrom_def clampIndex_def)

lemma substring_prefix: "substring (a @ b) 0 (int (length a)) = a"
  by (simp add: substring_def clampIndex_def Let_def)

lemma substring_field:
  "substring (a @ x # n @ rest) (int (length a) + 1) (int (length a) + 1 + int (length n)) = n"
  using substring_middle[of "a @ [x]" n rest] by (simp add: ac_simps)

lemma substringFrom_field:
  "substringFrom (a @ x # n @ rest) (int (length a) + 1 + int (length n)) = rest"
proof -
  have "clampIndex (a @ x # n @ rest) (int (length a) + 1 + int (length n)) = length a + 1 + length n"
    by (simp add: clampIndex_def)
  then show ?thesis by (simp add: substringFrom_def)
qed

lemma natToString_head_digit: "natToString 10 n = d # ds \<Longrightarrow> isDigit d"
  using natToString_digits[of d n] by simp

lemma numToString_length: "numToString (Some (int n)) = natToString 10 n"
  by (simp add: numToString_def)

lemma parseLine_snapshot:
  "parseLine r (CHR '':'' # natToString 10 (length n) @ CHR '':'' # n @ CHR '':'' # c)
     = r\<lparr>versions := versions r @ [n], snapshots := (snapshots r)(n \<mapsto> unescapeString c)\<rparr>"
proof -
  let ?ds = "natToString 10 (length n)"
  let ?wc = "?ds @ CHR '':'' # n @ CHR '':'' # c"
  have a: "substringFrom (CHR '':'' # ?wc) 1 = ?wc" by (rule substringFrom_one)
  have b: "indexOf ?wc (CHR '':'') = int (length ?ds)" by (rule indexOf_after_digits)
  have b': "int (length ?ds) \<noteq> - 1" by simp
  have c: "parseInt (substring ?wc 0 (int (length ?ds))) = Some (int (length n))"
    by (simp add: substring_prefix parseInt_natToString)
  have d: "substring ?wc (int (length ?ds) + 1) (int (length ?ds) + 1 + int (length n)) = n"
    by (rule substring_field)
  have e: "substringFrom ?wc (int (length ?ds) + 1 + int (length n)) = CHR '':'' # c"
    by (rule substringFrom_field)
  show ?thesis
    unfolding parseLine_def
    by (simp only: a b c d e Let_def startsWith_def list.case if_True if_False b' not_True_eq_False
          option.case refl substringFrom_one)
qed

lemma parseLine_delta:
  "parseLine r (natToString 10 (length n) @ CHR '':'' # n @ CHR '':'' # c)
     = r\<lparr>versions := versions r @ [n], deltas := (deltas r)(n \<mapsto> unescapeString c)\<rparr>"
proof -
  let ?ds = "natToString 10 (length n)"
  let ?wc = "?ds @ CHR '':'' # n @ CHR '':'' # c"
  obtain d0 ds0 where ds: "?ds = d0 # ds0" using natToString_nonempty[of 10 "length n"] by (cases ?ds) auto
  then have "isDigit d0" by (rule natToString_head_digit)
  then have d0: "d0 \<noteq> CHR '':''" using isDigit_chars by blast
  have s: "\<not> startsWith ?wc (CHR '':'')" using ds d0 by (simp add: startsWith_def)
  have b: "indexOf ?wc (CHR '':'') = int (length ?ds)" by (rule indexOf_after_digits)
  have b': "int (length ?ds) \<noteq> - 1" by simp
  have c: "parseInt (substring ?wc 0 (int (length ?ds))) = Some (int (length n))"
    by (simp add: substring_prefix parseInt_natToString)
  have d: "substring ?wc (int (length ?ds) + 1) (int (length ?ds) + 1 + int (length n)) = n"
    by (rule substring_field)
  have e: "substringFrom ?wc (int (length ?ds) + 1 + int (length n)) = CHR '':'' # c"
    by (rule substringFrom_field)
  have st: "startsWith (CHR '':'' # c) (CHR '':'')" by (simp add: startsWith_def)
  show ?thesis
    unfolding parseLine_def
    by (simp only: s b c d e st Let_def if_True if_False b' not_True_eq_False
          option.case refl substringFrom_one if_cancel)
qed

lemma splitOn_no_sep: "sep \<notin> set x \<Longrightarrow> splitOn x sep = [x]"
  by (induction x) auto

lemma splitOn_append_sep:
  "sep \<notin> set x \<Longrightarrow> splitOn (x @ sep # rest) sep = x # splitOn rest sep"
  by (induction x) auto

lemma splitOn_joinWith:
  assumes "ls \<noteq> []" "\<forall>l\<in>set ls. sep \<notin> set l"
  shows "splitOn (joinWith ls sep) sep = ls"
  using assms
proof (induction ls sep rule: joinWith.induct)
  case (1 sep)
  then show ?case by simp
next
  case (2 x sep)
  then show ?case by (simp add: splitOn_no_sep)
next
  case (3 x y ys sep)
  then show ?case by (simp add: splitOn_append_sep)
qed

lemma in_set_dropWhile: "c \<in> set l \<Longrightarrow> \<not> P c \<Longrightarrow> c \<in> set (dropWhile P l)"
  by (induction l) auto

lemma trim_nonblank:
  assumes "c \<in> set l" "\<not> isWhiteSpace c"
  shows "trim l \<noteq> []"
proof -
  have "c \<in> set (rev (dropWhile isWhiteSpace l))"
    using assms by (simp add: in_set_dropWhile)
  then have "c \<in> set (dropWhile isWhiteSpace (rev (dropWhile isWhiteSpace l)))"
    using assms(2) by (rule in_set_dropWhile)
  then have "dropWhile isWhiteSpace (rev (dropWhile isWhiteSpace l)) \<noteq> []"
    by (metis empty_iff list.set(1))
  then have "rev (dropWhile isWhiteSpace (rev (dropWhile isWhiteSpace l))) \<noteq> []"
    by (simp only: rev_is_Nil_conv not_False_eq_True)
  then show ?thesis unfolding trim_def .
qed

lemma colon_nonblank: "CHR '':'' \<in> set l \<Longrightarrow> trim l \<noteq> []"
  by (rule trim_nonblank[of "CHR '':''"]) (simp_all add: isWhiteSpace_def)

lemma LF_notin_escapeString: "LF \<notin> set (escapeString p)"
  unfolding escapeString_escBy by (auto simp: escBy_def split: if_splits)

lemma LF_notin_natToString: "LF \<notin> set (natToString 10 n)"
  using natToString_digits[of LF n] by (auto simp: isDigit_def)

lemma serializeVersion_line:
  assumes "l \<in> set (serializeVersion d v)"
  shows "CHR '':'' \<in> set l" and "LF \<notin> set v \<Longrightarrow> LF \<notin> set l"
  using assms
  by (auto simp: serializeVersion_def numToString_length LF_notin_escapeString LF_notin_natToString
      split: if_splits)

lemma parseLine_serializeVersion:
  "foldl parseLine r (serializeVersion d v) =
     (if truthy (snapshots d) v
      then r\<lparr>versions := versions r @ [v],
             snapshots := (snapshots r)(v \<mapsto> unescapeString (escapeString (the (snapshots d v))))\<rparr>
      else if truthy (deltas d) v
      then r\<lparr>versions := versions r @ [v],
             deltas := (deltas r)(v \<mapsto> unescapeString (escapeString (the (deltas d v))))\<rparr>
      else r)"
  by (simp add: serializeVersion_def numToString_length parseLine_snapshot parseLine_delta)

lemma foldl_parseLine_serialized:
  "versions (foldl parseLine r (concat (map (serializeVersion d) vs)))
     = versions r @ filter (\<lambda>v. truthy (snapshots d) v \<or> truthy (deltas d) v) vs
   \<and> snapshots (foldl parseLine r (concat (map (serializeVersion d) vs)))
     = (\<lambda>u. if u \<in> set vs \<and> truthy (snapshots d) u
             then Some (unescapeString (escapeString (the (snapshots d u)))) else snapshots r u)
   \<and> deltas (foldl parseLine r (concat (map (serializeVersion d) vs)))
     = (\<lambda>u. if u \<in> set vs \<and> \<not> truthy (snapshots d) u \<and> truthy (deltas d) u
             then Some (unescapeString (escapeString (the (deltas d u)))) else deltas r u)"
proof (induction vs arbitrary: r)
  case Nil
  then show ?case by simp
next
  case (Cons v vs)
  let ?r1 = "foldl parseLine r (serializeVersion d v)"
  have f: "foldl parseLine r (concat (map (serializeVersion d) (v # vs)))
         = foldl parseLine ?r1 (concat (map (serializeVersion d) vs))"
    by simp
  show ?case
    unfolding f using Cons.IH[of ?r1]
    by (auto simp: parseLine_serializeVersion fun_eq_iff)
qed

lemma parseStorage_serializeStorage:
  assumes "\<forall>v\<in>set (versions d). LF \<notin> set v"
  shows "versions (parseStorage (serializeStorage d))
           = filter (\<lambda>v. truthy (snapshots d) v \<or> truthy (deltas d) v) (versions d)"
    and "snapshots (parseStorage (serializeStorage d))
           = (\<lambda>u. if u \<in> set (versions d) \<and> truthy (snapshots d) u
                   then Some (unescapeString (escapeString (the (snapshots d u)))) else None)"
    and "deltas (parseStorage (serializeStorage d))
           = (\<lambda>u. if u \<in> set (versions d) \<and> \<not> truthy (snapshots d) u \<and> truthy (deltas d) u
                   then Some (unescapeString (escapeString (the (deltas d u)))) else None)"
proof -
  let ?ls = "concat (map (serializeVersion d) (versions d))"
  have ps: "parseStorage (serializeStorage d) = foldl parseLine emptyData ?ls"
  proof (cases "?ls = []")
    case True
    have "serializeStorage d = []" unfolding serializeStorage_def True by simp
    moreover have "foldl parseLine emptyData ?ls = emptyData" unfolding True by simp
    ultimately show ?thesis by (simp only: parseStorage_Nil)
  next
    case False
    have colon: "\<forall>l\<in>set ?ls. CHR '':'' \<in> set l" using serializeVersion_line(1) by auto
    have nolf: "\<forall>l\<in>set ?ls. LF \<notin> set l" using serializeVersion_line(2) assms by auto
    have sp: "splitOn (joinWith ?ls LF) LF = ?ls" using splitOn_joinWith[OF False nolf] .
    have fl: "filter (\<lambda>line. trim line \<noteq> []) ?ls = ?ls"
      using colon colon_nonblank by (auto simp: filter_id_conv)
    obtain l0 ls0 where l0: "?ls = l0 # ls0" using False by (cases ?ls) auto
    then have "CHR '':'' \<in> set l0" using colon by simp
    then have "CHR '':'' \<in> set (joinWith ?ls LF)"
      unfolding l0 by (cases ls0) auto
    then have "trim (joinWith ?ls LF) \<noteq> []" by (rule colon_nonblank)
    then show ?thesis by (simp add: parseStorage_def serializeStorage_def sp fl)
  qed
  have e: "versions emptyData = []" "snapshots emptyData u = None" "deltas emptyData u = None" for u
    by (simp_all add: emptyData_def)
  note F = foldl_parseLine_serialized[of emptyData d "versions d", unfolded e append_Nil, folded ps]
  show "versions (parseStorage (serializeStorage d))
           = filter (\<lambda>v. truthy (snapshots d) v \<or> truthy (deltas d) v) (versions d)"
    by (rule F[THEN conjunct1])
  show "snapshots (parseStorage (serializeStorage d))
           = (\<lambda>u. if u \<in> set (versions d) \<and> truthy (snapshots d) u
                   then Some (unescapeString (escapeString (the (snapshots d u)))) else None)"
    by (rule F[THEN conjunct2, THEN conjunct1])
  show "deltas (parseStorage (serializeStorage d))
           = (\<lambda>u. if u \<in> set (versions d) \<and> \<not> truthy (snapshots d) u \<and> truthy (deltas d) u
                   then Some (unescapeString (escapeString (the (deltas d u)))) else None)"
    by (rule F[THEN conjunct2, THEN conjunct2])
qed

lemma set_substring: "set (substring x a b) \<subseteq> set x"
  unfolding substring_def Let_def by (meson set_take_subset set_drop_subset subset_trans)

lemma set_substringFrom: "set (substringFrom x a) \<subseteq> set x"
  unfolding substringFrom_def by (rule set_drop_subset)

lemma parseLine_cases:
  "parseLine r l = r
   \<or> (\<exists>n c. set n \<subseteq> set l
         \<and> (parseLine r l = r\<lparr>versions := versions r @ [n], snapshots := (snapshots r)(n \<mapsto> unescapeString c)\<rparr>
            \<or> parseLine r l = r\<lparr>versions := versions r @ [n], deltas := (deltas r)(n \<mapsto> unescapeString c)\<rparr>))"
proof (cases "startsWith l (CHR '':'')")
  case True
  let ?wc = "substringFrom l 1"
  let ?fc = "indexOf ?wc (CHR '':'')"
  show ?thesis
  proof (cases "?fc = - 1 \<or> parseInt (substring ?wc 0 ?fc) = None")
    case skip: True
    then have "parseLine r l = r"
      using True by (auto simp: parseLine_def Let_def split: option.splits)
    then show ?thesis by simp
  next
    case False
    then obtain k where k: "parseInt (substring ?wc 0 ?fc) = Some k" and fc: "?fc \<noteq> - 1" by auto
    let ?n = "substring ?wc (?fc + 1) (?fc + 1 + k)"
    let ?rem = "substringFrom ?wc (?fc + 1 + k)"
    show ?thesis
    proof (cases "startsWith ?rem (CHR '':'')")
      case rem: True
      have eq: "parseLine r l = r\<lparr>versions := versions r @ [?n],
                  snapshots := (snapshots r)(?n \<mapsto> unescapeString (substringFrom ?rem 1))\<rparr>"
        using True k fc rem by (simp add: parseLine_def Let_def)
      have "set ?n \<subseteq> set l"
        using set_substring[of ?wc "?fc + 1" "?fc + 1 + k"] set_substringFrom[of l 1] by blast
      then show ?thesis using eq by blast
    next
      case rem: False
      then have "parseLine r l = r"
        using True k fc by (simp add: parseLine_def Let_def)
      then show ?thesis by simp
    qed
  qed
next
  case nc: False
  let ?fc = "indexOf l (CHR '':'')"
  show ?thesis
  proof (cases "?fc = - 1 \<or> parseInt (substring l 0 ?fc) = None")
    case skip: True
    then have "parseLine r l = r"
      using nc by (auto simp: parseLine_def Let_def split: option.splits)
    then show ?thesis by simp
  next
    case False
    then obtain k where k: "parseInt (substring l 0 ?fc) = Some k" and fc: "?fc \<noteq> - 1" by auto
    let ?n = "substring l (?fc + 1) (?fc + 1 + k)"
    let ?rem = "substringFrom l (?fc + 1 + k)"
    show ?thesis
    proof (cases "startsWith ?rem (CHR '':'')")
      case rem: True
      have eq: "parseLine r l = r\<lparr>versions := versions r @ [?n],
                  deltas := (deltas r)(?n \<mapsto> unescapeString (substringFrom ?rem 1))\<rparr>"
        using nc k fc rem by (simp add: parseLine_def Let_def)
      have "set ?n \<subseteq> set l" by (rule set_substring)
      then show ?thesis using eq by blast
    next
      case rem: False
      then have "parseLine r l = r"
        using nc k fc by (simp add: parseLine_def Let_def)
      then show ?thesis by simp
    qed
  qed
qed

lemma splitOn_no_sep_in_lines: "l \<in> set (splitOn s sep) \<Longrightarrow> sep \<notin> set l"
proof (induction s arbitrary: l)
  case Nil
  then show ?case by simp
next
  case (Cons c s)
  then show ?case by (cases "splitOn s sep") (auto split: if_splits)
qed

lemma parseLine_clean:
  assumes "cleanData r" "LF \<notin> set l"
  shows "cleanData (parseLine r l)"
  using parseLine_cases[of r l] assms
  by (auto simp: cleanData_def unescapeString_stable list_all_iff split: if_splits)

lemma foldl_parseLine_clean:
  "cleanData r \<Longrightarrow> \<forall>l\<in>set ls. LF \<notin> set l \<Longrightarrow> cleanData (foldl parseLine r ls)"
proof (induction ls arbitrary: r)
  case Nil
  then show ?case by simp
next
  case (Cons l ls)
  then show ?case by (simp add: parseLine_clean)
qed

lemma parseStorage_clean: "cleanData (parseStorage s)"
proof -
  have "cleanData emptyData" by (simp add: cleanData_def emptyData_def)
  moreover have "\<forall>l\<in>set (filter (\<lambda>line. trim line \<noteq> []) (splitOn s LF)). LF \<notin> set l"
    using splitOn_no_sep_in_lines by auto
  ultimately show ?thesis
    unfolding parseStorage_def using foldl_parseLine_clean by auto
qed

text \<open>The round trip of the record codec, for data whose names are plain and hold no
  line break, where every version has one payload, not empty and stable under the
  escape codec.\<close>

lemma parse_serialize_roundtrip:
  assumes names: "\<forall>v\<in>set (versions d). LF \<notin> set v"
    and full: "\<forall>v\<in>set (versions d). truthy (snapshots d) v \<or> truthy (deltas d) v"
    and snaps: "\<And>u p. snapshots d u = Some p \<Longrightarrow> u \<in> set (versions d) \<and> p \<noteq> [] \<and> escapeStable p"
    and dels: "\<And>u p. deltas d u = Some p \<Longrightarrow>
                 u \<in> set (versions d) \<and> p \<noteq> [] \<and> escapeStable p \<and> snapshots d u = None"
    and plain: "plainNames (versions d)"
  shows "parseStorage (serializeStorage d) = d"
proof (rule parsedData.equality)
  note R = parseStorage_serializeStorage[OF names]
  show "versions (parseStorage (serializeStorage d)) = versions d"
    unfolding R(1) using full by (simp add: filter_id_conv)
  show "snapshots (parseStorage (serializeStorage d)) = snapshots d"
  proof
    fix u
    show "snapshots (parseStorage (serializeStorage d)) u = snapshots d u"
    proof (cases "snapshots d u")
      case None
      then show ?thesis unfolding R(2) by (simp add: truthy_def)
    next
      case (Some p)
      with snaps[OF Some] show ?thesis
        unfolding R(2) by (simp add: truthy_def unescape_escape_stable)
    qed
  qed
  show "deltas (parseStorage (serializeStorage d)) = deltas d"
  proof
    fix u
    show "deltas (parseStorage (serializeStorage d)) u = deltas d u"
    proof (cases "deltas d u")
      case None
      then show ?thesis unfolding R(3) by (simp add: truthy_def)
    next
      case (Some p)
      with dels[OF Some] show ?thesis
        unfolding R(3) by (simp add: truthy_def unescape_escape_stable)
    qed
  qed
  show "parsedData.more (parseStorage (serializeStorage d)) = parsedData.more d"
    by simp
qed

section \<open>Facts about the resolver\<close>

lemma replay_inert:
  assumes "\<And>u. deltas pd' u = deltas pd u \<or> (inert (deltas pd) u \<and> inert (deltas pd') u)"
  shows "replay pd' ns t = replay pd ns t"
proof (induction ns arbitrary: t)
  case Nil
  then show ?case by simp
next
  case (Cons u ns)
  from assms[of u] show ?case
  proof
    assume "deltas pd' u = deltas pd u"
    then show ?thesis using Cons.IH by (simp add: truthy_def)
  next
    assume "inert (deltas pd) u \<and> inert (deltas pd') u"
    then show ?thesis using Cons.IH by (auto simp: inert_def split: if_splits)
  qed
qed

lemma getVersionText_inert_dir:
  assumes ev: "versions (parseStorage s') = versions (parseStorage s)"
    and es: "snapshots (parseStorage s') = snapshots (parseStorage s)"
    and ed: "\<And>u. deltas (parseStorage s') u = deltas (parseStorage s) u
                 \<or> (inert (deltas (parseStorage s)) u \<and> inert (deltas (parseStorage s')) u)"
    and res: "getVersionText s w = Some r"
  shows "getVersionText s' w = Some r"
proof -
  have rp: "replay (parseStorage s') ns t = replay (parseStorage s) ns t" for ns t
    using replay_inert[of "parseStorage s'" "parseStorage s"] ed by blast
  have fb: "findBase (parseStorage s') n = findBase (parseStorage s) n" for n
    by (induction n) (simp_all add: ev es Let_def)
  have rs: "replayFromSnapshot (parseStorage s') u = replayFromSnapshot (parseStorage s) u" for u
    unfolding replayFromSnapshot_def Let_def fb rp ev ..
  have "s = s \<longrightarrow> getVersionText s' w = Some r"
  proof (rule getVersionText.raw_induct[where P = "\<lambda>s0 w0 r0. s0 = s \<longrightarrow> getVersionText s' w0 = Some r0", OF _ res],
         goal_cases)
    case (1 f s0 w r)
    show ?case
    proof
      assume s0: "s0 = s"
      note body = "1"(2)[unfolded s0 Let_def]
      have IH: "getVersionText s' b = Some y" if "f s b = Some y" for b y
        using "1"(1)[OF that] by simp
      consider (absent) "\<not> jsIncludes (versions (parseStorage s)) w"
        | (snap) "jsIncludes (versions (parseStorage s)) w" "truthy (snapshots (parseStorage s)) w"
        | (same) "jsIncludes (versions (parseStorage s)) w" "\<not> truthy (snapshots (parseStorage s)) w"
                 "deltas (parseStorage s') w = deltas (parseStorage s) w"
        | (inert) "jsIncludes (versions (parseStorage s)) w" "\<not> truthy (snapshots (parseStorage s)) w"
                 "inert (deltas (parseStorage s)) w" "inert (deltas (parseStorage s')) w"
        using ed[of w] by blast
      then show "getVersionText s' w = Some r"
      proof cases
        case absent
        then show ?thesis using body by (subst getVersionText.simps) (simp add: ev Let_def)
      next
        case snap
        then show ?thesis using body by (subst getVersionText.simps) (simp add: ev es Let_def)
      next
        case same
        have tr: "truthy (deltas (parseStorage s')) w = truthy (deltas (parseStorage s)) w"
          using same(3) by (simp add: truthy_def)
        show ?thesis
        proof (cases "truthy (deltas (parseStorage s)) w \<and> jsIncludes (the (deltas (parseStorage s) w)) (CHR ''='')
                        \<and> indexOf (the (deltas (parseStorage s) w)) (CHR ''='') = 0")
          case True
          show ?thesis
          proof (cases "indexOfFrom (the (deltas (parseStorage s) w)) (CHR '':'') 1 = - 1")
            case True
            with \<open>truthy (deltas (parseStorage s)) w \<and> _\<close> same body
            have "f s (substringFrom (the (deltas (parseStorage s) w)) 1) = Some r"
              by simp
            then have "getVersionText s' (substringFrom (the (deltas (parseStorage s) w)) 1) = Some r"
              using IH by blast
            then show ?thesis
              using True \<open>truthy (deltas (parseStorage s)) w \<and> _\<close> same
              by (subst getVersionText.simps) (simp add: ev es tr Let_def)
          next
            case False
            with \<open>truthy (deltas (parseStorage s)) w \<and> _\<close> same body
            obtain base ops where
              b: "f s (substring (the (deltas (parseStorage s) w)) 1
                        (indexOfFrom (the (deltas (parseStorage s) w)) (CHR '':'') 1)) = Some base"
              and d: "decodeDiff (substringFrom (the (deltas (parseStorage s) w))
                        (indexOfFrom (the (deltas (parseStorage s) w)) (CHR '':'') 1 + 1)) = Some ops"
              and r: "r = Some (applyDiff (orEmpty base) ops)"
              by (auto simp: bind_eq_Some_conv)
            from b have "getVersionText s' (substring (the (deltas (parseStorage s) w)) 1
                        (indexOfFrom (the (deltas (parseStorage s) w)) (CHR '':'') 1)) = Some base"
              using IH by blast
            then show ?thesis
              using False \<open>truthy (deltas (parseStorage s)) w \<and> _\<close> same d r
              by (subst getVersionText.simps) (simp add: ev es tr Let_def)
          qed
        next
          case False
          then have nc: "(truthy (deltas (parseStorage s)) w \<and> jsIncludes (the (deltas (parseStorage s) w)) (CHR ''='')
                        \<and> indexOf (the (deltas (parseStorage s) w)) (CHR ''='') = 0) = False"
            by blast
          from body same(1,2) have "replayFromSnapshot (parseStorage s) w \<bind>
                (\<lambda>currentText. Some (Some currentText)) = Some r"
            by (simp add: nc)
          then show ?thesis using same
            by (subst getVersionText.simps) (simp add: ev es tr Let_def rs nc)
        qed
      next
        case inert
        then show ?thesis using body
          by (subst getVersionText.simps) (auto simp: ev es Let_def rs inert_def split: if_splits)
      qed
    qed
  qed
  then show ?thesis by simp
qed

lemma indexOfAux_range: "indexOfAux xs c k = - 1 \<or> k \<le> indexOfAux xs c k"
proof (induction xs arbitrary: k)
  case Nil
  then show ?case by simp
next
  case (Cons x xs)
  from Cons.IH[of "k + 1"] show ?case by auto
qed

lemma indexOf_zero_hd: "xs \<noteq> [] \<Longrightarrow> hd xs \<noteq> c \<Longrightarrow> indexOf xs c \<noteq> 0"
proof -
  assume a: "xs \<noteq> []" "hd xs \<noteq> c"
  then obtain y ys where xs: "xs = y # ys" by (cases xs) auto
  from indexOfAux_range[of ys c 1] a xs show ?thesis by (auto simp: indexOf_def)
qed

lemmas parse_eval = parseStorage_def trim_def isWhiteSpace_def emptyData_def
  parseLine_def startsWith_def substringFrom_def substring_def clampIndex_def indexOf_def parseInt_def
  digitValue_def Let_def unescapeString_def jsIncludes_def

section \<open>Facts about the optimal selection\<close>

lemma hd_insort_key:
  "hd (insort_key f x ys) = (if ys = [] \<or> f x \<le> f (hd ys) then x else hd ys)"
  by (cases ys) auto

lemma sort_key_nonempty: "xs \<noteq> [] \<Longrightarrow> sort_key f xs \<noteq> []"
  by (metis length_0_conv length_sort)

lemma hd_sort_key_first_min:
  fixes f :: "'a \<Rightarrow> nat"
  assumes "xs \<noteq> []"
  shows "\<exists>k<length xs. hd (sort_key f xs) = xs ! k
           \<and> (\<forall>j<length xs. f (xs ! k) \<le> f (xs ! j)) \<and> (\<forall>j<k. f (xs ! k) < f (xs ! j))"
  using assms
proof (induction xs)
  case Nil
  then show ?case by simp
next
  case (Cons x xs)
  show ?case
  proof (cases "xs = []")
    case True
    then show ?thesis by simp
  next
    case False
    from Cons.IH[OF False] obtain k where k: "k < length xs" "hd (sort_key f xs) = xs ! k"
      "\<forall>j<length xs. f (xs ! k) \<le> f (xs ! j)" "\<forall>j<k. f (xs ! k) < f (xs ! j)"
      by blast
    have ne: "sort_key f xs \<noteq> []" using False by (rule sort_key_nonempty)
    have hd: "hd (sort_key f (x # xs)) = (if f x \<le> f (xs ! k) then x else xs ! k)"
      using ne k(2) by (simp add: hd_insort_key)
    show ?thesis
    proof (cases "f x \<le> f (xs ! k)")
      case True
      have "\<forall>j<length (x # xs). f ((x # xs) ! 0) \<le> f ((x # xs) ! j)"
      proof (intro allI impI)
        fix j assume "j < length (x # xs)"
        then show "f ((x # xs) ! 0) \<le> f ((x # xs) ! j)"
          using True k(3) by (cases j) (auto intro: order_trans)
      qed
      then show ?thesis using hd True by (intro exI[of _ 0]) simp
    next
      case False
      have a: "\<forall>j<length (x # xs). f ((x # xs) ! Suc k) \<le> f ((x # xs) ! j)"
      proof (intro allI impI)
        fix j assume "j < length (x # xs)"
        then show "f ((x # xs) ! Suc k) \<le> f ((x # xs) ! j)"
          using False k(3) by (cases j) auto
      qed
      have b: "\<forall>j<Suc k. f ((x # xs) ! Suc k) < f ((x # xs) ! j)"
      proof (intro allI impI)
        fix j assume "j < Suc k"
        then show "f ((x # xs) ! Suc k) < f ((x # xs) ! j)"
          using False k(4) by (cases j) auto
      qed
      show ?thesis using hd False a b k(1) by (intro exI[of _ "Suc k"]) simp
    qed
  qed
qed

lemma findExisting_resolved:
  "findExisting storage text vs = Some None \<Longrightarrow> v \<in> set vs \<Longrightarrow> \<exists>r. getVersionText storage v = Some r"
proof (induction vs)
  case Nil
  then show ?case by simp
next
  case (Cons a vs)
  then show ?case by (auto simp: bind_eq_Some_conv split: if_splits)
qed

lemma hybridOptions_resolved:
  assumes "\<forall>v\<in>set bs. \<exists>r. getVersionText storage v = Some r"
  shows "hybridOptions dmp text vn storage bs
       = Some (map (\<lambda>b. \<lparr>content = hybridCandidate dmp storage text b,
                          optionLength = length (serializedLine vn (hybridCandidate dmp storage text b))\<rparr>) bs)"
  using assms
proof (induction bs)
  case Nil
  then show ?case by simp
next
  case (Cons b bs)
  from Cons.prems obtain r where r: "getVersionText storage b = Some r" by auto
  have "hybridOptions dmp text vn storage bs
       = Some (map (\<lambda>b. \<lparr>content = hybridCandidate dmp storage text b,
                          optionLength = length (serializedLine vn (hybridCandidate dmp storage text b))\<rparr>) bs)"
    using Cons by simp
  then show ?case using r
    by (simp add: hybridCandidate_def resolvedText_def serializedLine_def Let_def)
qed

lemma resolveLoop_fresh: "resolveLoop existingVersions candidate \<notin> set existingVersions"
proof (induction existingVersions candidate rule: resolveLoop.induct)
  case (1 existingVersions candidate)
  show ?case
  proof (cases "jsIncludes existingVersions candidate")
    case True
    then show ?thesis using "1.IH" by (subst resolveLoop.simps) simp
  next
    case False
    then show ?thesis by (subst resolveLoop.simps) (simp add: jsIncludes_def)
  qed
qed

lemma assignedName_fresh: "assignedName existingVersions text ver \<notin> set existingVersions"
  by (simp add: assignedName_def resolveVersionName_def resolveLoop_fresh jsIncludes_def)

section \<open>Facts about squash and references\<close>

lemma foldl_squashKeep:
  "versions (foldl (squashKeep pd) r vs) = versions r"
  "snapshots (foldl (squashKeep pd) r vs) u
     = (if u \<in> set vs \<and> truthy (snapshots pd) u then snapshots pd u else snapshots r u)"
  "deltas (foldl (squashKeep pd) r vs) u
     = (if u \<in> set vs \<and> \<not> truthy (snapshots pd) u \<and> truthy (deltas pd) u
        then deltas pd u else deltas r u)"
proof (induction vs arbitrary: r)
  case Nil
  {
    case 1 show ?case by simp
  next
    case 2 show ?case by simp
  next
    case 3 show ?case by simp
  }
next
  case (Cons v vs)
  {
    case 1 show ?case using Cons.IH(1)[of "squashKeep pd r v"] by (simp add: squashKeep_def)
  next
    case 2 show ?case using Cons.IH(2)[of "squashKeep pd r v"]
      by (auto simp: squashKeep_def truthy_def split: option.splits)
  next
    case 3 show ?case using Cons.IH(3)[of "squashKeep pd r v"]
      by (auto simp: squashKeep_def truthy_def split: option.splits)
  }
qed

lemma indexOfAux_absent: "c \<notin> set xs \<Longrightarrow> indexOfAux xs c k = - 1"
  by (induction xs arbitrary: k) auto

lemma getVersionText_absent:
  "v \<notin> set (versions (parseStorage s)) \<Longrightarrow> getVersionText s v = Some None"
  by (subst getVersionText.simps) (simp add: jsIncludes_def)




section \<open>The escape codec is not a bijection\<close>

text \<open>
  C2. The claim: \<open>unescape (escape s) = s\<close> for every string \<open>s\<close>. The code does not do
  this. A backslash followed by the letter \<open>t\<close> is escaped to two backslashes and
  \<open>t\<close>; \<open>unescapeString\<close> replaces backslash-\<open>t\<close> by a tab before it halves the
  backslashes, so it takes the second backslash and the \<open>t\<close> for an escaped tab and
  returns a backslash and a tab.
\<close>

theorem unescape_escape_backslash_t:
  "escapeString [BSL, CHR ''t''] = [BSL, BSL, CHR ''t'']
   \<and> unescapeString (escapeString [BSL, CHR ''t'']) = [BSL, TAB]"
  by code_simp

section \<open>Committing the empty text to an empty history\<close>



section \<open>Texts that do not come back\<close>

text \<open>
  C1. The claim: after \<open>commit\<close>, \<open>show\<close> of the assigned name returns the committed
  text. On the empty storage, the text made of a backslash and the letter \<open>t\<close>,
  committed as \<open>v1\<close>, is stored as a snapshot under the name \<open>v1\<close>, and \<open>show\<close> of
  \<open>v1\<close> returns a backslash and a tab: the escape codec of C2 does not give the text
  back.
\<close>

theorem show_after_commit_backslash_t:
  "commit dmp [] [BSL, CHR ''t''] (Some ''v1'') = Some (Inr ('':2:v1:'' @ [BSL, BSL, CHR ''t'']))
   \<and> log ('':2:v1:'' @ [BSL, BSL, CHR ''t'']) = [\<lparr>version = ''v1'', isSnapshot = True\<rparr>]
   \<and> show' ('':2:v1:'' @ [BSL, BSL, CHR ''t'']) ''v1'' = Some (Some [BSL, TAB])"
  by code_simp

text \<open>
  C3. The claim: parsing the serialization of a list of records gives the list back.
  The single snapshot record \<open>v1\<close> whose text is a backslash and the letter \<open>t\<close> is
  serialized to one line and parsed back as the record \<open>v1\<close> whose text is a backslash
  and a tab.
\<close>

theorem parse_serialize_backslash_t:
  "serializeStorage \<lparr>versions = [''v1''], snapshots = [''v1'' \<mapsto> [BSL, CHR ''t'']], deltas = Map.empty\<rparr>
     = '':2:v1:'' @ [BSL, BSL, CHR ''t'']
   \<and> versions (parseStorage ('':2:v1:'' @ [BSL, BSL, CHR ''t''])) = [''v1'']
   \<and> snapshots (parseStorage ('':2:v1:'' @ [BSL, BSL, CHR ''t''])) ''v1'' = Some [BSL, TAB]"
  by code_simp

section \<open>Squashing onto a version whose text is empty\<close>

text \<open>
  C5. The claim: in every storage reached from the empty one by \<open>commit\<close>, \<open>reset\<close> and
  \<open>squash\<close>, the first record is a snapshot. Commit \<open>a\<close> as \<open>v1\<close>, the empty text as
  \<open>v2\<close> and the empty text again as \<open>v3\<close>, then squash onto \<open>v2\<close>: the snapshot of
  \<open>v2\<close> has the empty text and is not written, and the storage that results has the
  reference \<open>v3\<close> as its first and only record.
\<close>

theorem squash_leaves_reference_first:
  "commit dmp [] ''a'' (Some ''v1'') = Some (Inr '':2:v1:a'')
   \<and> commit dmp '':2:v1:a'' [] (Some ''v2'') = Some (Inr ('':2:v1:a'' @ [LF] @ ''2:v2:D1''))
   \<and> commit dmp ('':2:v1:a'' @ [LF] @ ''2:v2:D1'') [] (Some ''v3'')
        = Some (Inr ('':2:v1:a'' @ [LF] @ ''2:v2:D1'' @ [LF] @ ''2:v3:=v2''))
   \<and> squash ('':2:v1:a'' @ [LF] @ ''2:v2:D1'' @ [LF] @ ''2:v3:=v2'') ''v2'' = Some (Inr ''2:v3:=v2'')
   \<and> log ''2:v3:=v2'' = [\<lparr>version = ''v3'', isSnapshot = False\<rparr>]"
  by code_simp

text \<open>
  C7. The claim: after \<open>squash\<close> the target is in the log as a snapshot and \<open>show\<close> of
  the target returns the text it returned before. In the storage with the snapshot
  \<open>v1\<close> of \<open>a\<close> and the delta \<open>v2\<close> that deletes it, \<open>show\<close> of \<open>v2\<close> returns the empty
  text; \<open>squash\<close> onto \<open>v2\<close> returns the empty storage, whose log is empty and where
  \<open>show\<close> of \<open>v2\<close> returns \<open>null\<close>.
\<close>

theorem squash_loses_empty_target:
  "show' ('':2:v1:a'' @ [LF] @ ''2:v2:D1'') ''v2'' = Some (Some [])
   \<and> squash ('':2:v1:a'' @ [LF] @ ''2:v2:D1'') ''v2'' = Some (Inr [])
   \<and> log [] = []
   \<and> show' [] ''v2'' = Some None"
  by code_simp

section \<open>Decoding edit scripts\<close>

text \<open>
  C4, as it is claimed: decoding fails on an unknown tag and on a malformed or
  truncated length. It does not: the tag \<open>X\<close> decodes to no operation, the tag \<open>R\<close>
  with no digits to a retain of length \<open>NaN\<close>, and an insert that announces nine
  characters where two are left to an insert of those two.
\<close>

theorem decodeDiff_returns_on_malformed_input:
  "decodeDiff ''X'' = Some []
   \<and> decodeDiff ''R'' = Some [Retain None]
   \<and> decodeDiff ''I9:ab'' = Some [Insert ''ab'']"
  by code_simp

text \<open>
  C4, amended: decoding never reports an error. Characters that are not one of the
  tags \<open>R\<close>, \<open>D\<close>, \<open>I\<close> are stepped over and produce no operation: for every edit
  script with non-negative lengths, a run of such characters followed by the encoding
  of the script decodes to the script without its trailing retains. A tag \<open>R\<close> or \<open>D\<close>
  whose digits are missing decodes to an operation of length \<open>NaN\<close>, and a tag \<open>I\<close>
  that announces more characters than are left decodes to an insert of those that are
  left.
\<close>

theorem decodeDiff_skips_unknown_tags:
  assumes "\<forall>c\<in>set junk. c \<noteq> CHR ''R'' \<and> c \<noteq> CHR ''D'' \<and> c \<noteq> CHR ''I''"
    and "list_all validOp ops"
  shows "decodeDiff (junk @ encodeDiff ops) = Some (popRetains ops)
       \<and> decodeDiff (junk @ encodeDiff ops @ ''R'') = Some (popRetains ops @ [Retain None])
       \<and> decodeDiff (junk @ encodeDiff ops @ ''D'') = Some (popRetains ops @ [Delete None])
       \<and> (length t \<le> n \<longrightarrow>
            decodeDiff (junk @ encodeDiff ops @ CHR ''I'' # natToString 10 n @ CHR '':'' # t)
              = Some (popRetains ops @ [Insert t]))"
proof -
  let ?e = "concat (map encodeOp (popRetains ops))"
  have v: "list_all validOp (popRetains ops)" using popRetains_valid[OF assms(2)] .
  have walk: "decodeLoop (junk @ ?e @ post) 0 []
        = decodeLoop (junk @ ?e @ post) (int (length junk) + int (length ?e)) (popRetains ops)"
    if "post = [] \<or> \<not> isDigit (hd post)" for post
  proof -
    have "decodeLoop ([] @ junk @ ?e @ post) (int (length ([]::string))) []
        = decodeLoop ([] @ junk @ ?e @ post) (int (length ([]::string)) + int (length junk)) []"
      using decodeLoop_junk[OF assms(1)] by blast
    also have "\<dots> = decodeLoop (junk @ ?e @ post) (int (length junk)) []" by simp
    also have "\<dots> = decodeLoop (junk @ ?e @ post) (int (length junk) + int (length ?e)) ([] @ popRetains ops)"
      using decodeLoop_tokens[OF v that] by blast
    finally show ?thesis by simp
  qed
  have a: "decodeDiff (junk @ encodeDiff ops) = Some (popRetains ops)"
    using walk[of "[]"] by (simp add: decodeDiff_def encodeDiff_def decodeLoop_end)
  have tag: "decodeLoop ((junk @ ?e) @ [c]) (int (length (junk @ ?e))) acc
       = Some (acc @ [if c = CHR ''R'' then Retain None else Delete None])"
    if "c = CHR ''R'' \<or> c = CHR ''D''" for c acc
    using that
    by (subst decodeLoop.simps)
       (auto simp: Let_def charAt_append_Cons[of "junk @ ?e" c "[]", simplified] decodeLoop_end parseInt_def startsWith_def)
  have b: "decodeDiff (junk @ encodeDiff ops @ ''R'') = Some (popRetains ops @ [Retain None])"
    using walk[of "''R''"] tag[of "CHR ''R''" "popRetains ops"]
    by (simp add: decodeDiff_def encodeDiff_def isDigit_def)
  have c: "decodeDiff (junk @ encodeDiff ops @ ''D'') = Some (popRetains ops @ [Delete None])"
    using walk[of "''D''"] tag[of "CHR ''D''" "popRetains ops"]
    by (simp add: decodeDiff_def encodeDiff_def isDigit_def)
  have d: "decodeDiff (junk @ encodeDiff ops @ CHR ''I'' # natToString 10 n @ CHR '':'' # t)
              = Some (popRetains ops @ [Insert t])" if le: "length t \<le> n"
  proof -
    let ?ds = "natToString 10 n"
    let ?pre = "junk @ ?e"
    let ?E = "?pre @ CHR ''I'' # ?ds @ CHR '':'' # t"
    have dig: "\<forall>c\<in>set ?ds. isDigit c" using natToString_digits by blast
    have w: "decodeLoop ?E 0 [] = decodeLoop ?E (int (length ?pre)) (popRetains ops)"
      using walk[of "CHR ''I'' # ?ds @ CHR '':'' # t"] by (simp add: isDigit_def)
    have st: "decodeLoop ?E (int (length ?pre)) (popRetains ops)
           = decodeLoop ?E (int (length (?pre @ CHR ''I'' # ?ds @ [CHR '':''])) + int n)
               (popRetains ops @ [Insert t])"
    proof (rule decodeLoop_I_step[where ds = ?ds and len = "int n"
          and ?i3.0 = "int (length (?pre @ CHR ''I'' # ?ds @ [CHR '':'']))"])
      show "takeWhile (\<lambda>c. c \<noteq> CHR '':'') (drop (nat (int (length ?pre) + 1)) ?E) = ?ds"
        unfolding nat_int_plus1 using takeWhile_to_colon[OF dig, of t] by simp
      show "?E ! nat (int (length ?pre)) = CHR ''I''"
        unfolding nat_int by (rule nth_append_length)
      show "substring ?E (int (length (?pre @ CHR ''I'' # ?ds @ [CHR '':''])))
              (int (length (?pre @ CHR ''I'' # ?ds @ [CHR '':''])) + int n) = t"
        using substring_tail[OF le, of "?pre @ CHR ''I'' # ?ds @ [CHR '':'']"] by simp
    qed (simp_all add: parseInt_natToString)
    have en: "decodeLoop ?E (int (length (?pre @ CHR ''I'' # ?ds @ [CHR '':''])) + int n)
                (popRetains ops @ [Insert t]) = Some (popRetains ops @ [Insert t])"
      by (rule decodeLoop_end) (use le in simp)
    show ?thesis
      unfolding decodeDiff_def encodeDiff_def using w st en by simp
  qed
  show ?thesis using a b c d by simp
qed

text \<open>The junk \<open>X-?\<close> before the encoding of a script of four operations.\<close>

theorem decodeDiff_skips_unknown_tags_witness:
  "list_all (\<lambda>c. c \<noteq> CHR ''R'' \<and> c \<noteq> CHR ''D'' \<and> c \<noteq> CHR ''I'') ''X-?''
   \<and> list_all validOp [Retain (Some 2), Insert ''ab'', Delete (Some 1), Retain (Some 4)]
   \<and> decodeDiff ''X-?R2I2:abD1'' = Some [Retain (Some 2), Insert ''ab'', Delete (Some 1)]
   \<and> decodeDiff ''X-?R2I2:abD1R'' = Some [Retain (Some 2), Insert ''ab'', Delete (Some 1), Retain None]
   \<and> decodeDiff ''X-?R2I2:abD1D'' = Some [Retain (Some 2), Insert ''ab'', Delete (Some 1), Delete None]
   \<and> decodeDiff ''X-?R2I2:abD1I9:xy''
       = Some [Retain (Some 2), Insert ''ab'', Delete (Some 1), Insert ''xy'']"
proof -
  have j: "\<forall>c\<in>set ''X-?''. c \<noteq> CHR ''R'' \<and> c \<noteq> CHR ''D'' \<and> c \<noteq> CHR ''I''" by simp
  have v: "list_all validOp [Retain (Some 2), Insert ''ab'', Delete (Some 1), Retain (Some 4)]"
    by (simp add: validOp_def)
  have p: "popRetains [Retain (Some 2), Insert ''ab'', Delete (Some 1), Retain (Some 4)]
             = [Retain (Some 2), Insert ''ab'', Delete (Some 1)]"
    by code_simp
  have e: "encodeDiff [Retain (Some 2), Insert ''ab'', Delete (Some 1), Retain (Some 4)] = ''R2I2:abD1''"
    by code_simp
  have n: "natToString 10 9 = ''9''" by code_simp
  show ?thesis
    using decodeDiff_skips_unknown_tags[OF j v, of "''xy''" 9] j v by (simp add: p e n)
qed

section \<open>Payloads that hold an equals sign\<close>

text \<open>
  C9. A record whose payload holds the character \<open>=\<close>, but not as its first character
  (a plain delta whose edit script holds \<open>=\<close>, in an inserted text), is skipped by the
  replay loop, and it is no reference either. So every version resolves as it would if
  the edit script of that record were empty: the storage \<open>s'\<close> has the same records as
  \<open>s\<close> but for the payload of \<open>v\<close>, which is empty in \<open>s'\<close>.
\<close>

theorem payload_with_equals_is_skipped:
  assumes "deltas (parseStorage s) v = Some p" and "CHR ''='' \<in> set p" and "hd p \<noteq> CHR ''=''"
    and "versions (parseStorage s') = versions (parseStorage s)"
    and "snapshots (parseStorage s') = snapshots (parseStorage s)"
    and "deltas (parseStorage s') = (deltas (parseStorage s))(v \<mapsto> [])"
  shows "replay (parseStorage s) (v # names) text = replay (parseStorage s) names text
       \<and> show' s w = show' s' w"
proof -
  from assms(2) have "p \<noteq> []" by auto
  then have "indexOf p (CHR ''='') \<noteq> 0"
    using assms(3) by (rule indexOf_zero_hd)
  have iv: "inert (deltas (parseStorage s)) v"
    using assms(1,2) \<open>indexOf p (CHR ''='') \<noteq> 0\<close> by (simp add: inert_def jsIncludes_def)
  have iv': "inert (deltas (parseStorage s')) v"
    using assms(6) by (simp add: inert_def truthy_def)
  have rel: "deltas (parseStorage s') u = deltas (parseStorage s) u
               \<or> (inert (deltas (parseStorage s)) u \<and> inert (deltas (parseStorage s')) u)" for u
    using iv iv' assms(6) by (cases "u = v") simp_all
  have rel': "deltas (parseStorage s) u = deltas (parseStorage s') u
               \<or> (inert (deltas (parseStorage s')) u \<and> inert (deltas (parseStorage s)) u)" for u
    using rel[of u] by auto
  have fwd: "getVersionText s w = Some r \<Longrightarrow> getVersionText s' w = Some r" for r
    by (rule getVersionText_inert_dir[OF assms(4,5) rel])
  have bwd: "getVersionText s' w = Some r \<Longrightarrow> getVersionText s w = Some r" for r
    by (rule getVersionText_inert_dir[OF assms(4)[symmetric] assms(5)[symmetric] rel'])
  have "getVersionText s w = getVersionText s' w"
  proof (cases "getVersionText s w")
    case None
    then show ?thesis using bwd by (cases "getVersionText s' w") auto
  next
    case (Some r)
    then show ?thesis using fwd by simp
  qed
  moreover have "replay (parseStorage s) (v # names) text = replay (parseStorage s) names text"
    using assms(1,2) by (simp add: jsIncludes_def)
  ultimately show ?thesis by (simp add: show'_def decompress_def)
qed

text \<open>The delta \<open>v2\<close> inserts \<open>x=y\<close> before the text \<open>a\<close> of \<open>v1\<close>, and \<open>v3\<close> inserts
  \<open>z\<close>: \<open>show\<close> returns \<open>a\<close> for \<open>v2\<close> and \<open>za\<close> for \<open>v3\<close>.\<close>

theorem payload_with_equals_is_skipped_witness:
  "deltas (parseStorage ('':2:v1:a'' @ [LF] @ ''2:v2:I3:x=y'' @ [LF] @ ''2:v3:I1:z'')) ''v2'' = Some ''I3:x=y''
   \<and> CHR ''='' \<in> set ''I3:x=y'' \<and> hd ''I3:x=y'' \<noteq> CHR ''=''
   \<and> versions (parseStorage ('':2:v1:a'' @ [LF] @ ''2:v2:'' @ [LF] @ ''2:v3:I1:z''))
       = versions (parseStorage ('':2:v1:a'' @ [LF] @ ''2:v2:I3:x=y'' @ [LF] @ ''2:v3:I1:z''))
   \<and> snapshots (parseStorage ('':2:v1:a'' @ [LF] @ ''2:v2:'' @ [LF] @ ''2:v3:I1:z''))
       = snapshots (parseStorage ('':2:v1:a'' @ [LF] @ ''2:v2:I3:x=y'' @ [LF] @ ''2:v3:I1:z''))
   \<and> deltas (parseStorage ('':2:v1:a'' @ [LF] @ ''2:v2:'' @ [LF] @ ''2:v3:I1:z''))
       = (deltas (parseStorage ('':2:v1:a'' @ [LF] @ ''2:v2:I3:x=y'' @ [LF] @ ''2:v3:I1:z'')))(''v2'' \<mapsto> [])
   \<and> show' ('':2:v1:a'' @ [LF] @ ''2:v2:I3:x=y'' @ [LF] @ ''2:v3:I1:z'') ''v3''
       = show' ('':2:v1:a'' @ [LF] @ ''2:v2:'' @ [LF] @ ''2:v3:I1:z'') ''v3''
   \<and> show' ('':2:v1:a'' @ [LF] @ ''2:v2:I3:x=y'' @ [LF] @ ''2:v3:I1:z'') ''v2'' = Some (Some ''a'')
   \<and> show' ('':2:v1:a'' @ [LF] @ ''2:v2:I3:x=y'' @ [LF] @ ''2:v3:I1:z'') ''v3'' = Some (Some ''za'')"
proof -
  let ?s = "'':2:v1:a'' @ [LF] @ ''2:v2:I3:x=y'' @ [LF] @ ''2:v3:I1:z''"
  let ?s' = "'':2:v1:a'' @ [LF] @ ''2:v2:'' @ [LF] @ ''2:v3:I1:z''"
  have ps: "parseStorage ?s = \<lparr>versions = [''v1'', ''v2'', ''v3''], snapshots = [''v1'' \<mapsto> ''a''],
              deltas = [''v2'' \<mapsto> ''I3:x=y'', ''v3'' \<mapsto> ''I1:z'']\<rparr>"
    by (simp add: parse_eval)
  have ps': "parseStorage ?s' = \<lparr>versions = [''v1'', ''v2'', ''v3''], snapshots = [''v1'' \<mapsto> ''a''],
              deltas = [''v2'' \<mapsto> [], ''v3'' \<mapsto> ''I1:z'']\<rparr>"
    by (simp add: parse_eval)
  have d: "deltas (parseStorage ?s') = (deltas (parseStorage ?s))(''v2'' \<mapsto> [])"
    unfolding ps ps' by (auto simp: fun_eq_iff)
  have h: "deltas (parseStorage ?s) ''v2'' = Some ''I3:x=y''" "CHR ''='' \<in> set ''I3:x=y''"
    "hd ''I3:x=y'' \<noteq> CHR ''=''" "versions (parseStorage ?s') = versions (parseStorage ?s)"
    "snapshots (parseStorage ?s') = snapshots (parseStorage ?s)"
    unfolding ps ps' by simp_all
  have e2: "show' ?s ''v2'' = Some (Some ''a'')" by code_simp
  have e3: "show' ?s ''v3'' = Some (Some ''za'')" by code_simp
  have t: "show' ?s ''v3'' = show' ?s' ''v3''"
    using payload_with_equals_is_skipped[OF h d, of "[]" "[]" "''v3''"] by (rule conjunct2)
  show ?thesis by (intro conjI) (rule h d t e2 e3)+
qed

section \<open>Optimal selection\<close>

text \<open>
  The selection itself. When the history is not empty, its names and the assigned name
  are plain, and no existing version resolves to the new text, \<open>commit\<close> stores under
  the assigned name the payload of one candidate: its serialized line is no longer than
  the line of any candidate, and strictly shorter than the line of every candidate
  before it in the list (the delta against the predecessor, then the hybrids in position
  order). When that payload is not empty, the line written for the new version is the
  serialized line of the candidate; when it is empty, no line is written for the new
  version.
\<close>

lemma commit_stores_first_shortest_candidate:
  assumes "versions (parseStorage storage) \<noteq> []"
    and "findExisting storage text (versions (parseStorage storage)) = Some None"
    and "plainNames (versions (parseStorage storage)
                      @ [assignedName (versions (parseStorage storage)) text ver])"
  shows "\<exists>k < length (candidates dmp storage text (versions (parseStorage storage))).
           (\<forall>j < length (candidates dmp storage text (versions (parseStorage storage))).
               length (serializedLine (assignedName (versions (parseStorage storage)) text ver)
                        (candidates dmp storage text (versions (parseStorage storage)) ! k))
             \<le> length (serializedLine (assignedName (versions (parseStorage storage)) text ver)
                        (candidates dmp storage text (versions (parseStorage storage)) ! j)))
         \<and> (\<forall>j < k.
               length (serializedLine (assignedName (versions (parseStorage storage)) text ver)
                        (candidates dmp storage text (versions (parseStorage storage)) ! k))
             < length (serializedLine (assignedName (versions (parseStorage storage)) text ver)
                        (candidates dmp storage text (versions (parseStorage storage)) ! j)))
         \<and> commit dmp storage text ver
             = Some (Inr (serializeStorage
                 ((parseStorage storage)
                    \<lparr>versions := versions (parseStorage storage)
                                  @ [assignedName (versions (parseStorage storage)) text ver],
                     deltas := (deltas (parseStorage storage))
                                 (assignedName (versions (parseStorage storage)) text ver
                                    \<mapsto> candidates dmp storage text (versions (parseStorage storage)) ! k)\<rparr>)))
         \<and> (candidates dmp storage text (versions (parseStorage storage)) ! k \<noteq> [] \<longrightarrow>
              serializeVersion
                 ((parseStorage storage)
                    \<lparr>versions := versions (parseStorage storage)
                                  @ [assignedName (versions (parseStorage storage)) text ver],
                     deltas := (deltas (parseStorage storage))
                                 (assignedName (versions (parseStorage storage)) text ver
                                    \<mapsto> candidates dmp storage text (versions (parseStorage storage)) ! k)\<rparr>)
                 (assignedName (versions (parseStorage storage)) text ver)
              = [serializedLine (assignedName (versions (parseStorage storage)) text ver)
                   (candidates dmp storage text (versions (parseStorage storage)) ! k)])
         \<and> (candidates dmp storage text (versions (parseStorage storage)) ! k = [] \<longrightarrow>
              serializeVersion
                 ((parseStorage storage)
                    \<lparr>versions := versions (parseStorage storage)
                                  @ [assignedName (versions (parseStorage storage)) text ver],
                     deltas := (deltas (parseStorage storage))
                                 (assignedName (versions (parseStorage storage)) text ver
                                    \<mapsto> candidates dmp storage text (versions (parseStorage storage)) ! k)\<rparr>)
                 (assignedName (versions (parseStorage storage)) text ver)
              = [])"
proof -
  define pd where "pd = parseStorage storage"
  define vs where "vs = versions pd"
  define vn where "vn = assignedName vs text ver"
  define cands where "cands = candidates dmp storage text vs"
  define mk where "mk = (\<lambda>c. \<lparr>content = c, optionLength = length (serializedLine vn c)\<rparr>)"
  define parsed1 where "parsed1 = pd\<lparr>versions := vs @ [vn]\<rparr>"
  have vs_ne: "vs \<noteq> []" using assms(1) by (simp add: vs_def pd_def)
  have fe: "findExisting storage text vs = Some None" using assms(2) by (simp add: vs_def pd_def)
  have res: "\<forall>v\<in>set vs. \<exists>r. getVersionText storage v = Some r"
    using findExisting_resolved[OF fe] by blast
  have idx: "(vs @ [vn]) ! (length (vs @ [vn]) - 2) = last vs"
    using vs_ne by (simp add: nth_append last_conv_nth)
  obtain r where r: "getVersionText storage (last vs) = Some r"
    using res vs_ne by (meson last_in_set)
  have dopt: "deltaOption dmp parsed1 text vn storage = Some [mk (deltaCandidate dmp storage text (last vs))]"
    using vs_ne r idx
    by (simp add: deltaOption_def parsed1_def mk_def deltaCandidate_def resolvedText_def
        serializedLine_def Let_def)
  have tk: "take (length (versions parsed1) - 2) (versions parsed1) = butlast vs"
    using vs_ne by (simp add: parsed1_def butlast_conv_take)
  have "\<forall>v\<in>set (butlast vs). \<exists>r. getVersionText storage v = Some r"
    using res by (meson in_set_butlastD)
  then have hopt: "hybridOptions dmp text vn storage (butlast vs)
       = Some (map mk (map (hybridCandidate dmp storage text) (butlast vs)))"
    using hybridOptions_resolved[of "butlast vs" storage dmp "text" vn] by (simp add: mk_def comp_def)
  have ocat: "[mk (deltaCandidate dmp storage text (last vs))]
                @ map mk (map (hybridCandidate dmp storage text) (butlast vs)) = map mk cands"
    by (simp add: cands_def candidates_def)
  have ne: "map mk cands \<noteq> []" by (simp add: cands_def candidates_def)
  from hd_sort_key_first_min[OF ne, of optionLength]
  obtain k where k: "k < length cands" "hd (sort_key optionLength (map mk cands)) = mk (cands ! k)"
    "\<forall>j<length cands. optionLength (mk (cands ! k)) \<le> optionLength (mk (cands ! j))"
    "\<forall>j<k. optionLength (mk (cands ! k)) < optionLength (mk (cands ! j))"
    by auto
  have sne: "sort_key optionLength (map mk cands) \<noteq> []" using ne by (rule sort_key_nonempty)
  have "findBestDiffOption dmp parsed1 text vn storage
          = Some (case sort_key optionLength (map mk cands) of [] \<Rightarrow> None | best # _ \<Rightarrow> Some best)"
    unfolding findBestDiffOption_def tk dopt hopt
    by (simp only: Option.bind.bind_lunit Let_def ocat)
  then have best: "findBestDiffOption dmp parsed1 text vn storage = Some (Some (mk (cands ! k)))"
    using sne k(2) by (cases "sort_key optionLength (map mk cands)") simp_all
  have len: "length (versions parsed1) \<noteq> 1" using vs_ne by (simp add: parsed1_def)
  have c: "commit dmp storage text ver
        = Some (Inr (serializeStorage (pd\<lparr>versions := vs @ [vn], deltas := (deltas pd)(vn \<mapsto> cands ! k)\<rparr>)))"
    unfolding commit_def decompress_def compress_def Let_def
    using fe best len
    by (simp add: pd_def[symmetric] vs_def[symmetric] vn_def[symmetric] parsed1_def mk_def)
  have fresh: "vn \<notin> set vs" unfolding vn_def by (rule assignedName_fresh)
  then have nosnap: "snapshots pd vn = None"
    using parseStorage_dom[of storage] by (auto simp: pd_def vs_def)
  then have line: "cands ! k \<noteq> [] \<longrightarrow>
      serializeVersion (pd\<lparr>versions := vs @ [vn], deltas := (deltas pd)(vn \<mapsto> cands ! k)\<rparr>) vn
        = [serializedLine vn (cands ! k)]"
    by (simp add: serializeVersion_def truthy_def serializedLine_def)
  from nosnap have noline: "cands ! k = [] \<longrightarrow>
      serializeVersion (pd\<lparr>versions := vs @ [vn], deltas := (deltas pd)(vn \<mapsto> cands ! k)\<rparr>) vn = []"
    by (simp add: serializeVersion_def truthy_def)
  have le: "\<forall>j<length cands. length (serializedLine vn (cands ! k)) \<le> length (serializedLine vn (cands ! j))"
    using k(3) by (simp add: mk_def)
  have lt: "\<forall>j<k. length (serializedLine vn (cands ! k)) < length (serializedLine vn (cands ! j))"
    using k(4) by (simp add: mk_def)
  show ?thesis
    using k(1) le lt c line noline
    unfolding cands_def vn_def vs_def pd_def by blast
qed

text \<open>After \<open>abcdefgh\<close> and \<open>xyz\<close>, the text \<open>abcdefgX\<close> has the delta \<open>D3I8:abcdefgX\<close>
  and the hybrid \<open>=v1:R7D1I1:X\<close> as candidates; the hybrid is one character shorter and
  is the record that is appended.\<close>

lemma commit_stores_first_shortest_candidate_example:
  "versions (parseStorage ('':2:v1:abcdefgh'' @ [LF] @ ''2:v2:D8I3:xyz'')) \<noteq> []
   \<and> findExisting ('':2:v1:abcdefgh'' @ [LF] @ ''2:v2:D8I3:xyz'') ''abcdefgX''
         (versions (parseStorage ('':2:v1:abcdefgh'' @ [LF] @ ''2:v2:D8I3:xyz''))) = Some None
   \<and> candidates prefixDiff ('':2:v1:abcdefgh'' @ [LF] @ ''2:v2:D8I3:xyz'') ''abcdefgX''
         (versions (parseStorage ('':2:v1:abcdefgh'' @ [LF] @ ''2:v2:D8I3:xyz'')))
       = [''D3I8:abcdefgX'', ''=v1:R7D1I1:X'']
   \<and> commit prefixDiff ('':2:v1:abcdefgh'' @ [LF] @ ''2:v2:D8I3:xyz'') ''abcdefgX'' (Some ''v3'')
       = Some (Inr ('':2:v1:abcdefgh'' @ [LF] @ ''2:v2:D8I3:xyz'' @ [LF] @ ''2:v3:=v1:R7D1I1:X''))"
proof -
  define s where "s = '':2:v1:abcdefgh'' @ [LF] @ ''2:v2:D8I3:xyz''"
  define vs where "vs = versions (parseStorage s)"
  define cs where "cs = candidates prefixDiff s ''abcdefgX'' vs"
  define vn where "vn = assignedName vs ''abcdefgX'' (Some ''v3'')"
  have h1: "vs \<noteq> []" unfolding vs_def s_def by code_simp
  have h2: "findExisting s ''abcdefgX'' vs = Some None" unfolding vs_def s_def by code_simp
  have csv: "cs = [''D3I8:abcdefgX'', ''=v1:R7D1I1:X'']" unfolding cs_def vs_def s_def by code_simp
  have vnv: "vn = ''v3''" unfolding vn_def vs_def s_def by code_simp
  have l0: "length (serializedLine ''v3'' ''D3I8:abcdefgX'') = 18" by code_simp
  have l1: "length (serializedLine ''v3'' ''=v1:R7D1I1:X'') = 17" by code_simp
  have ser: "serializeStorage ((parseStorage s)\<lparr>versions := vs @ [''v3''],
                deltas := (deltas (parseStorage s))(''v3'' \<mapsto> ''=v1:R7D1I1:X'')\<rparr>)
              = s @ [LF] @ ''2:v3:=v1:R7D1I1:X''"
    unfolding vs_def s_def by code_simp
  have h3: "plainNames (vs @ [vn])" unfolding vn_def vs_def s_def by code_simp
  from commit_stores_first_shortest_candidate[of s "''abcdefgX''" "Some ''v3''" prefixDiff,
      folded vs_def, folded cs_def vn_def, OF h1 h2 h3]
  obtain k where k: "k < length cs"
    and le: "\<forall>j < length cs. length (serializedLine vn (cs ! k)) \<le> length (serializedLine vn (cs ! j))"
    and c: "commit prefixDiff s ''abcdefgX'' (Some ''v3'')
             = Some (Inr (serializeStorage ((parseStorage s)\<lparr>versions := vs @ [vn],
                   deltas := (deltas (parseStorage s))(vn \<mapsto> cs ! k)\<rparr>)))"
    by blast
  have c1: "cs ! 1 = ''=v1:R7D1I1:X''" and c0: "cs ! 0 = ''D3I8:abcdefgX''" and len: "length cs = 2"
    unfolding csv by simp_all
  from k len have "k = 0 \<or> k = 1" by auto
  moreover have "k \<noteq> 0"
  proof
    assume "k = 0"
    with le len have "length (serializedLine vn (cs ! 0)) \<le> length (serializedLine vn (cs ! 1))"
      by simp
    then show False unfolding c0 c1 vnv l0 l1 by simp
  qed
  ultimately have "k = 1" by simp
  with c have "commit prefixDiff s ''abcdefgX'' (Some ''v3'') = Some (Inr (s @ [LF] @ ''2:v3:=v1:R7D1I1:X''))"
    unfolding c1 vnv ser by (simp only: c1 ser)
  moreover have "s @ [LF] @ ''2:v3:=v1:R7D1I1:X''
      = '':2:v1:abcdefgh'' @ [LF] @ ''2:v2:D8I3:xyz'' @ [LF] @ ''2:v3:=v1:R7D1I1:X''"
    unfolding s_def by (simp only: append_assoc)
  ultimately have "commit prefixDiff s ''abcdefgX'' (Some ''v3'')
      = Some (Inr ('':2:v1:abcdefgh'' @ [LF] @ ''2:v2:D8I3:xyz'' @ [LF] @ ''2:v3:=v1:R7D1I1:X''))"
    by (simp only:)
  then show ?thesis using h1 h2 csv unfolding cs_def vs_def s_def by (intro conjI)
qed

section \<open>An empty candidate is not stored\<close>

text \<open>
  C6. The claim: when \<open>commit\<close> stores a version that is neither the first nor a
  duplicate, the record it appends is the candidate with the shortest serialized line.
  The storage \<open>:2:v2:b\<close>, \<open>2:v3:=v1\<close> has two records, the second a reference to a
  version that is gone, so that \<open>v3\<close> resolves to \<open>null\<close>. Committing the empty text as
  \<open>v4\<close> finds no version with that text; the candidates are the empty delta against
  \<open>v3\<close>, with the line \<open>2:v4:\<close>, and the hybrid \<open>=v2:D1\<close>. The empty delta is the
  shortest and is chosen, and then no record is appended at all: \<open>commit\<close> returns the
  storage as it was, \<open>log\<close> has no entry for \<open>v4\<close> and \<open>show\<close> of \<open>v4\<close> returns \<open>null\<close>.
  This holds for every diff provider.
\<close>

theorem commit_drops_empty_candidate:
  "versions (parseStorage ('':2:v2:b'' @ [LF] @ ''2:v3:=v1'')) = [''v2'', ''v3'']
   \<and> findExisting ('':2:v2:b'' @ [LF] @ ''2:v3:=v1'') []
         (versions (parseStorage ('':2:v2:b'' @ [LF] @ ''2:v3:=v1''))) = Some None
   \<and> assignedName (versions (parseStorage ('':2:v2:b'' @ [LF] @ ''2:v3:=v1''))) [] (Some ''v4'') = ''v4''
   \<and> candidates dmp ('':2:v2:b'' @ [LF] @ ''2:v3:=v1'') []
         (versions (parseStorage ('':2:v2:b'' @ [LF] @ ''2:v3:=v1''))) = [[], ''=v2:D1'']
   \<and> serializedLine ''v4'' [] = ''2:v4:''
   \<and> serializedLine ''v4'' ''=v2:D1'' = ''2:v4:=v2:D1''
   \<and> commit dmp ('':2:v2:b'' @ [LF] @ ''2:v3:=v1'') [] (Some ''v4'')
         = Some (Inr ('':2:v2:b'' @ [LF] @ ''2:v3:=v1''))
   \<and> log ('':2:v2:b'' @ [LF] @ ''2:v3:=v1'')
         = [\<lparr>version = ''v2'', isSnapshot = True\<rparr>, \<lparr>version = ''v3'', isSnapshot = False\<rparr>]
   \<and> show' ('':2:v2:b'' @ [LF] @ ''2:v3:=v1'') ''v4'' = Some None"
  by code_simp

text \<open>The storage is what \<open>squash\<close> onto \<open>v2\<close> leaves of the commits \<open>a\<close>, \<open>b\<close>, \<open>a\<close>.
  (On these texts the stand-in provider yields the operations of a longest common
  subsequence diff.)\<close>

lemma empty_candidate_storage_reachable:
  "commit prefixDiff [] ''a'' (Some ''v1'') = Some (Inr '':2:v1:a'')
   \<and> commit prefixDiff '':2:v1:a'' ''b'' (Some ''v2'') = Some (Inr ('':2:v1:a'' @ [LF] @ ''2:v2:D1I1:b''))
   \<and> commit prefixDiff ('':2:v1:a'' @ [LF] @ ''2:v2:D1I1:b'') ''a'' (Some ''v3'')
        = Some (Inr ('':2:v1:a'' @ [LF] @ ''2:v2:D1I1:b'' @ [LF] @ ''2:v3:=v1''))
   \<and> squash ('':2:v1:a'' @ [LF] @ ''2:v2:D1I1:b'' @ [LF] @ ''2:v3:=v1'') ''v2''
        = Some (Inr ('':2:v2:b'' @ [LF] @ ''2:v3:=v1''))"
  by code_simp

section \<open>References that squash leaves dangling\<close>



section \<open>Further observations\<close>

text \<open>
  A delta is computed against the resolved text of its predecessor, but replayed on
  what the deltas before it make of the nearest snapshot, references left out. After
  the commits \<open>a\<close>, \<open>b\<close>, \<open>a\<close> the third version is a reference to the first; the
  fourth text \<open>ac\<close> is stored as the delta \<open>R1I1:c\<close> against \<open>a\<close> and resolves to \<open>bc\<close>.
  (On these texts the stand-in provider yields the operations of a longest common
  subsequence diff.)
\<close>

lemma delta_after_reference:
  "commit prefixDiff [] ''a'' (Some ''v1'') = Some (Inr '':2:v1:a'')
   \<and> commit prefixDiff '':2:v1:a'' ''b'' (Some ''v2'') = Some (Inr ('':2:v1:a'' @ [LF] @ ''2:v2:D1I1:b''))
   \<and> commit prefixDiff ('':2:v1:a'' @ [LF] @ ''2:v2:D1I1:b'') ''a'' (Some ''v3'')
        = Some (Inr ('':2:v1:a'' @ [LF] @ ''2:v2:D1I1:b'' @ [LF] @ ''2:v3:=v1''))
   \<and> commit prefixDiff ('':2:v1:a'' @ [LF] @ ''2:v2:D1I1:b'' @ [LF] @ ''2:v3:=v1'') ''ac'' (Some ''v4'')
        = Some (Inr ('':2:v1:a'' @ [LF] @ ''2:v2:D1I1:b'' @ [LF] @ ''2:v3:=v1'' @ [LF] @ ''2:v4:R1I1:c''))
   \<and> show' ('':2:v1:a'' @ [LF] @ ''2:v2:D1I1:b'' @ [LF] @ ''2:v3:=v1'' @ [LF] @ ''2:v4:R1I1:c'') ''v4''
        = Some (Some ''bc'')"
  by code_simp

text \<open>The target of a squash can hold a backslash followed by \<open>t\<close> although no payload
  does; the snapshot written for it then reads back with a tab.\<close>

lemma squash_changes_text_with_backslash:
  "show' ('':2:v1:'' @ [BSL, BSL, LF] @ ''2:v2:R1I1:t'') ''v2'' = Some (Some [BSL, CHR ''t''])
   \<and> squash ('':2:v1:'' @ [BSL, BSL, LF] @ ''2:v2:R1I1:t'') ''v2'' = Some (Inr ('':2:v2:'' @ [BSL, BSL, CHR ''t'']))
   \<and> show' ('':2:v2:'' @ [BSL, BSL, CHR ''t'']) ''v2'' = Some (Some [BSL, TAB])"
  by code_simp

section \<open>Where the first record is a snapshot, and where squash keeps its promise\<close>

text \<open>
  Away from the empty text the behaviour is the documented one, on storages whose
  version names are plain. A storage whose first record is a snapshot keeps that
  property under \<open>commit\<close> (when the assigned name is plain and holds no line break) and
  under \<open>reset\<close>, and \<open>squash\<close> onto a version whose text is not empty returns a
  storage whose first record is a snapshot.
\<close>

lemma unescape_escape_nonempty: "p \<noteq> [] \<Longrightarrow> unescapeString (escapeString p) \<noteq> []"
proof -
  assume "p \<noteq> []"
  then have "escapeString p \<noteq> []"
    unfolding escapeString_escBy by (cases p) (auto simp: escBy_def split: option.splits)
  then show ?thesis
    by (simp add: unescapeString_def replacePair_Nil_iff)
qed

lemma firstIsSnapshot_parsed:
  "firstIsSnapshot s = (case versions (parseStorage s) of [] \<Rightarrow> True
                          | v # _ \<Rightarrow> truthy (snapshots (parseStorage s)) v)"
  by (simp add: firstIsSnapshot_def log_def decompress_def Let_def split: list.splits)

lemma firstIsSnapshot_serialize:
  assumes "\<forall>v\<in>set (versions d). LF \<notin> set v"
    and "versions d = v0 # rest" and "truthy (snapshots d) v0"
  shows "firstIsSnapshot (serializeStorage d)"
proof -
  note R = parseStorage_serializeStorage[OF assms(1)]
  have v: "versions (parseStorage (serializeStorage d))
      = v0 # filter (\<lambda>v. truthy (snapshots d) v \<or> truthy (deltas d) v) rest"
    unfolding R(1) assms(2) using assms(3) by simp
  from assms(3) obtain p where p: "snapshots d v0 = Some p" "p \<noteq> []"
    by (auto simp: truthy_def split: option.splits)
  have "snapshots (parseStorage (serializeStorage d)) v0 = Some (unescapeString (escapeString p))"
    unfolding R(2) assms(2) using assms(3) p by simp
  then have "truthy (snapshots (parseStorage (serializeStorage d))) v0"
    using unescape_escape_nonempty[OF p(2)] by (simp add: truthy_def)
  then show ?thesis unfolding firstIsSnapshot_parsed v by simp
qed

lemma firstIsSnapshot_serialize_none:
  assumes "\<forall>v\<in>set (versions d). \<not> truthy (snapshots d) v \<and> \<not> truthy (deltas d) v"
    and "\<forall>v\<in>set (versions d). LF \<notin> set v"
  shows "firstIsSnapshot (serializeStorage d)"
proof -
  have "versions (parseStorage (serializeStorage d)) = []"
    unfolding parseStorage_serializeStorage(1)[OF assms(2)] using assms(1) by simp
  then show ?thesis unfolding firstIsSnapshot_parsed by simp
qed

lemma firstIsSnapshot_empty: "firstIsSnapshot []"
  by (simp add: firstIsSnapshot_parsed parseStorage_Nil emptyData_def)

lemma firstIsSnapshot_append:
  assumes "firstIsSnapshot s" and "versions (parseStorage s) \<noteq> []" and "LF \<notin> set vn"
    and "vn \<notin> set (versions (parseStorage s))"
  shows "firstIsSnapshot (serializeStorage ((parseStorage s)\<lparr>versions := versions (parseStorage s) @ [vn],
            deltas := (deltas (parseStorage s))(vn \<mapsto> x)\<rparr>))"
proof -
  define pd where "pd = parseStorage s"
  from assms(2) obtain v0 rest where vs: "versions pd = v0 # rest" by (cases "versions pd") (auto simp: pd_def)
  have tr: "truthy (snapshots pd) v0" using assms(1) vs unfolding firstIsSnapshot_parsed pd_def by simp
  have clean: "cleanData pd" unfolding pd_def by (rule parseStorage_clean)
  have nolf: "\<forall>v\<in>set (versions (pd\<lparr>versions := versions pd @ [vn], deltas := (deltas pd)(vn \<mapsto> x)\<rparr>)). LF \<notin> set v"
    using clean assms(3) by (auto simp: cleanData_def list_all_iff)
  have "firstIsSnapshot (serializeStorage (pd\<lparr>versions := versions pd @ [vn], deltas := (deltas pd)(vn \<mapsto> x)\<rparr>))"
    by (rule firstIsSnapshot_serialize[OF nolf, where ?v0.0 = v0 and rest = "rest @ [vn]"])
       (use vs tr in simp_all)
  then show ?thesis unfolding pd_def .
qed

lemma commit_keeps_first_snapshot:
  assumes "firstIsSnapshot s"
    and "LF \<notin> set (assignedName (versions (parseStorage s)) text ver)"
    and "commit dmp s text ver = Some (Inr s')"
    and "plainNames (versions (parseStorage s) @ [assignedName (versions (parseStorage s)) text ver])"
  shows "firstIsSnapshot s'"
proof -
  define pd where "pd = parseStorage s"
  define vn where "vn = assignedName (versions pd) text ver"
  have fresh: "vn \<notin> set (versions pd)" unfolding vn_def by (rule assignedName_fresh)
  have lf: "LF \<notin> set vn" using assms(2) by (simp add: vn_def pd_def)
  show ?thesis
  proof (cases "versions pd = []")
    case True
    have fe: "findExisting s text (versions pd) = Some None" unfolding True by simp
    have "dom (snapshots pd) \<union> dom (deltas pd) \<subseteq> {}"
      using parseStorage_dom[of s] True by (simp add: pd_def)
    then have em: "snapshots pd = Map.empty" "deltas pd = Map.empty" by auto
    have c: "commit dmp s text ver
        = Some (Inr (serializeStorage (pd\<lparr>versions := [vn], snapshots := [vn \<mapsto> text]\<rparr>)))"
      unfolding commit_def decompress_def compress_def Let_def
      using fe em by (simp add: pd_def[symmetric] vn_def True)
    have s': "s' = serializeStorage (pd\<lparr>versions := [vn], snapshots := [vn \<mapsto> text]\<rparr>)"
      using c assms(3) by simp
    show ?thesis
    proof (cases "text = []")
      case True
      show ?thesis unfolding s'
        by (rule firstIsSnapshot_serialize_none) (use True em lf in \<open>simp_all add: truthy_def\<close>)
    next
      case False
      show ?thesis unfolding s'
        by (rule firstIsSnapshot_serialize[where ?v0.0 = vn and rest = "[]"])
           (use False lf in \<open>simp_all add: truthy_def\<close>)
    qed
  next
    case False
    then have len: "length (versions pd @ [vn]) \<noteq> 1" by simp
    have app: "firstIsSnapshot (serializeStorage (pd\<lparr>versions := versions pd @ [vn],
            deltas := (deltas pd)(vn \<mapsto> x)\<rparr>))" for x
      unfolding pd_def
      by (rule firstIsSnapshot_append) (use assms(1) False lf fresh in \<open>simp_all add: pd_def\<close>)
    from assms(3) obtain x where
      "s' = serializeStorage (pd\<lparr>versions := versions pd @ [vn], deltas := (deltas pd)(vn \<mapsto> x)\<rparr>)"
      unfolding commit_def addVersionReference_def decompress_def compress_def Let_def
        pd_def[symmetric] vn_def[symmetric]
      using False
      by (auto simp: bind_eq_Some_conv split: option.splits if_splits)
    then show ?thesis using app by simp
  qed
qed

lemma foldl_resetKeep:
  "versions (foldl (resetKeep pd) r vs) = versions r"
  "snapshots (foldl (resetKeep pd) r vs) u
     = (if u \<in> set vs \<and> truthy (snapshots pd) u then snapshots pd u else snapshots r u)"
proof (induction vs arbitrary: r)
  case Nil
  {
    case 1 show ?case by simp
  next
    case 2 show ?case by simp
  }
next
  case (Cons v vs)
  {
    case 1 show ?case using Cons.IH(1)[of "resetKeep pd r v"] by (simp add: resetKeep_def Let_def)
  next
    case 2 show ?case using Cons.IH(2)[of "resetKeep pd r v"]
      by (auto simp: resetKeep_def Let_def truthy_def split: option.splits)
  }
qed

lemma reset_keeps_first_snapshot:
  assumes "firstIsSnapshot s" and "reset s t = Inr s'"
    and "plainNames (versions (parseStorage s))"
  shows "firstIsSnapshot s'"
proof -
  define pd where "pd = parseStorage s"
  define vs where "vs = versions pd"
  have ne: "indexOf vs t \<noteq> - 1" using assms(2)
    by (auto simp: reset_def decompress_def Let_def vs_def pd_def split: if_splits)
  then have vne: "vs \<noteq> []" by (auto simp: indexOf_def)
  then obtain v0 rest where vs: "vs = v0 # rest" by (cases vs) auto
  have "0 \<le> indexOf vs t" using ne indexOfAux_range[of vs t 0] by (simp add: indexOf_def)
  then obtain n where n: "nat (indexOf vs t + 1) = Suc n" by (cases "nat (indexOf vs t + 1)") auto
  define keep where "keep = take (Suc n) vs"
  define d where "d = foldl (resetKeep pd) \<lparr>versions = keep, snapshots = Map.empty, deltas = Map.empty\<rparr> keep"
  have s': "s' = serializeStorage d"
    using assms(2) ne n
    by (simp add: reset_def decompress_def compress_def Let_def vs_def[symmetric] pd_def[symmetric] d_def keep_def)
  have kv: "keep = v0 # take n rest" unfolding keep_def vs by simp
  have dv: "versions d = keep" unfolding d_def by (simp add: foldl_resetKeep)
  have tr: "truthy (snapshots pd) v0"
    using assms(1) vs unfolding firstIsSnapshot_parsed pd_def[symmetric] vs_def[symmetric] by simp
  have "v0 \<in> set keep" unfolding kv by simp
  then have ds: "snapshots d v0 = snapshots pd v0" unfolding d_def foldl_resetKeep(2) using tr by simp
  have clean: "cleanData pd" unfolding pd_def by (rule parseStorage_clean)
  have nolf: "\<forall>v\<in>set (versions d). LF \<notin> set v"
    using clean unfolding dv keep_def cleanData_def vs_def list_all_iff by (meson in_set_takeD)
  show ?thesis unfolding s'
    by (rule firstIsSnapshot_serialize[OF nolf, where ?v0.0 = v0 and rest = "take n rest"])
       (use dv kv tr ds in \<open>simp_all add: truthy_def\<close>)
qed

lemma indexOfAux_found:
  "0 \<le> j \<Longrightarrow> indexOfAux xs c j = j + int k \<Longrightarrow> k < length xs \<and> xs ! k = c \<and> c \<notin> set (take k xs)"
proof (induction xs arbitrary: j k)
  case Nil
  then show ?case by simp
next
  case (Cons x xs)
  show ?case
  proof (cases "x = c")
    case True
    with Cons.prems have "k = 0" by simp
    then show ?thesis using True by simp
  next
    case False
    with Cons.prems have a: "indexOfAux xs c (j + 1) = j + int k" by simp
    have j1: "0 \<le> j + 1" using Cons.prems(1) by simp
    have "k \<noteq> 0"
    proof
      assume "k = 0"
      with a indexOfAux_range[of xs c "j + 1"] Cons.prems(1) show False by auto
    qed
    then obtain k' where k': "k = Suc k'" by (cases k) auto
    with a have "indexOfAux xs c (j + 1) = (j + 1) + int k'" by simp
    from Cons.IH[OF j1 this] show ?thesis using False k' by simp
  qed
qed

lemma indexOf_found:
  "indexOf xs c = int k \<Longrightarrow> k < length xs \<and> xs ! k = c \<and> c \<notin> set (take k xs)"
  using indexOfAux_found[of 0 xs c k] by (simp add: indexOf_def)

lemma squash_makes_first_snapshot:
  assumes "getVersionText s t = Some (Some txt)" and "txt \<noteq> []"
    and "squash s t = Some (Inr s')"
    and "plainNames (versions (parseStorage s))"
  shows "firstIsSnapshot s'"
proof -
  define pd where "pd = parseStorage s"
  define vs where "vs = versions pd"
  have ne: "indexOf vs t \<noteq> - 1" using assms(3)
    by (auto simp: squash_def decompress_def Let_def vs_def pd_def split: if_splits)
  then have "0 \<le> indexOf vs t" using indexOfAux_range[of vs t 0] by (simp add: indexOf_def)
  then obtain k where ik: "indexOf vs t = int k" by (metis nonneg_int_cases)
  define kept where "kept = foldl (squashKeep pd)
      \<lparr>versions = drop k vs, snapshots = [t \<mapsto> txt], deltas = Map.empty\<rparr> (drop (Suc k) vs)"
  have "squash s t = Some (Inr (serializeStorage kept))"
    using ik assms(1)
    by (simp add: squash_def decompress_def compress_def Let_def kept_def vs_def pd_def nat_int_plus1)
  then have s': "s' = serializeStorage kept" using assms(3) by simp
  from indexOf_found[OF ik] have k: "k < length vs" "vs ! k = t" by simp_all
  have dk: "drop k vs = t # drop (Suc k) vs" using k by (metis Cons_nth_drop_Suc)
  have kv: "versions kept = drop k vs" unfolding kept_def by (simp add: foldl_squashKeep)
  have tr: "truthy (snapshots kept) t"
    unfolding kept_def using assms(2) by (simp add: foldl_squashKeep truthy_def)
  have clean: "cleanData pd" unfolding pd_def by (rule parseStorage_clean)
  have nolf: "\<forall>v\<in>set (versions kept). LF \<notin> set v"
    using clean unfolding kv cleanData_def vs_def list_all_iff by (meson in_set_dropD)
  show ?thesis unfolding s'
    by (rule firstIsSnapshot_serialize[OF nolf, where ?v0.0 = t and rest = "drop (Suc k) vs"])
       (use kv dk tr in simp_all)
qed

text \<open>
  \<open>squash\<close> onto a version whose text is not empty and is given back by the escape
  codec: the target is the first entry of \<open>log\<close> and a snapshot, \<open>show\<close> of it returns
  the same text, and a name that occurs nowhere from the target on is in no entry of
  \<open>log\<close> and resolves to \<open>null\<close>. An absent target is an error.
\<close>

lemma getVersionText_snapshot:
  "v \<in> set (versions (parseStorage s)) \<Longrightarrow> truthy (snapshots (parseStorage s)) v
     \<Longrightarrow> getVersionText s v = Some (snapshots (parseStorage s) v)"
  by (subst getVersionText.simps) (simp add: jsIncludes_def)

lemma squash_onto_nonempty_text:
  assumes "indexOf (versions (parseStorage s)) t = int k"
    and "getVersionText s t = Some (Some txt)"
    and "txt \<noteq> []" and "escapeStable txt"
    and "plainNames (versions (parseStorage s))"
  shows "\<exists>s'. squash s t = Some (Inr s')
          \<and> log s' \<noteq> [] \<and> hd (log s') = \<lparr>version = t, isSnapshot = True\<rparr>
          \<and> show' s' t = Some (Some txt)
          \<and> (\<forall>v. v \<notin> set (drop k (versions (parseStorage s)))
                \<longrightarrow> v \<notin> version ` set (log s') \<and> show' s' v = Some None)"
proof -
  define pd where "pd = parseStorage s"
  define vs where "vs = versions pd"
  define kept where "kept = foldl (squashKeep pd)
      \<lparr>versions = drop k vs, snapshots = [t \<mapsto> txt], deltas = Map.empty\<rparr> (drop (Suc k) vs)"
  define s' where "s' = serializeStorage kept"
  have sq: "squash s t = Some (Inr s')"
    using assms(1,2)
    by (simp add: squash_def decompress_def compress_def Let_def s'_def kept_def vs_def pd_def nat_int_plus1)
  have clean: "cleanData pd" unfolding pd_def by (rule parseStorage_clean)
  from indexOf_found[OF assms(1)] have k: "k < length vs" "vs ! k = t"
    by (simp_all add: vs_def pd_def)
  then have t_in: "t \<in> set vs" by (metis nth_mem)
  have dk: "drop k vs = t # drop (Suc k) vs" using k by (metis Cons_nth_drop_Suc)
  have kv: "versions kept = drop k vs"
    unfolding kept_def by (simp add: foldl_squashKeep)
  have "snapshots pd t = Some txt" if "truthy (snapshots pd) t"
    using getVersionText_snapshot[of t s] that t_in assms(2) by (simp add: pd_def vs_def)
  then have kst: "snapshots kept t = Some txt"
    unfolding kept_def by (simp add: foldl_squashKeep)
  have nolf: "\<forall>v\<in>set (versions kept). LF \<notin> set v"
    using clean unfolding kv cleanData_def vs_def list_all_iff by (meson in_set_dropD)
  note R = parseStorage_serializeStorage[OF nolf, folded s'_def]
  have tr: "truthy (snapshots kept) t" using kst assms(3) by (simp add: truthy_def)
  have v': "versions (parseStorage s')
      = t # filter (\<lambda>v. truthy (snapshots kept) v \<or> truthy (deltas kept) v) (drop (Suc k) vs)"
    unfolding R(1) kv dk using tr by simp
  have st: "snapshots (parseStorage s') t = Some txt"
    unfolding R(2) kv dk using tr kst unescape_escape_stable[OF assms(4)] by simp
  have lg: "log s' \<noteq> []" "hd (log s') = \<lparr>version = t, isSnapshot = True\<rparr>"
    using v' st assms(3) by (simp_all add: log_def decompress_def Let_def truthy_def)
  have sh: "show' s' t = Some (Some txt)"
    unfolding show'_def decompress_def
    using getVersionText_snapshot[of t s'] v' st assms(3) by (simp add: truthy_def)
  have gone: "v \<notin> version ` set (log s') \<and> show' s' v = Some None" if "v \<notin> set (drop k vs)" for v
  proof -
    have "set (versions (parseStorage s')) \<subseteq> set (drop k vs)" unfolding R(1) kv by auto
    with that have nv: "v \<notin> set (versions (parseStorage s'))" by auto
    then have "v \<notin> version ` set (log s')"
      by (auto simp: log_def decompress_def Let_def)
    moreover have "show' s' v = Some None"
      unfolding show'_def decompress_def using nv by (rule getVersionText_absent)
    ultimately show ?thesis by simp
  qed
  show ?thesis using sq lg sh gone unfolding vs_def pd_def by blast
qed

lemma squash_absent_target:
  "t \<notin> set (versions (parseStorage s)) \<Longrightarrow> squash s t = Some (Inl (VersionNotFound t))"
  by (simp add: squash_def decompress_def Let_def indexOf_def indexOfAux_absent)

end
